theory Spec2Isabelle
  imports Main
begin

section \<open>Strings\<close>

text \<open>
  A Python \<open>str\<close> is modelled as a \<^typ>\<open>string\<close> whose characters are the code
  points below 256. On these, \<open>str.strip()\<close> removes the code points for which
  \<open>str.isspace()\<close> holds (U+0009 to U+000D, U+001C to U+0020, U+0085 and U+00A0), and
  \<open>str.lower()\<close> maps \<open>A\<close>..\<open>Z\<close> and the upper-case letters of the Latin-1 block
  (U+00C0 to U+00DE without U+00D7) to the letter 32 code points above.
\<close>

definition is_space :: "char \<Rightarrow> bool" where
  "is_space c =
     (let n = (of_char c :: nat)
      in (9 \<le> n \<and> n \<le> 13) \<or> (28 \<le> n \<and> n \<le> 32) \<or> n = 133 \<or> n = 160)"

definition lstrip :: "string \<Rightarrow> string" where
  "lstrip s = dropWhile is_space s"

definition rstrip :: "string \<Rightarrow> string" where
  "rstrip s = rev (dropWhile is_space (rev s))"

definition strip :: "string \<Rightarrow> string" where
  "strip s = rstrip (lstrip s)"

definition lower_char :: "char \<Rightarrow> char" where
  "lower_char c =
     (let n = (of_char c :: nat)
      in if (65 \<le> n \<and> n \<le> 90) \<or> (192 \<le> n \<and> n \<le> 214) \<or> (216 \<le> n \<and> n \<le> 222)
         then char_of (n + 32) else c)"

definition lower :: "string \<Rightarrow> string" where
  "lower s = map lower_char s"

section \<open>Filename Sanitizer\<close>

text \<open>
  The character class of the regular expression in \<open>sanitize_filename\<close>:
  \<open><\<close>, \<open>>\<close>, \<open>:\<close>, the double quote (0x22), \<open>/\<close>, the backslash (0x5C), \<open>|\<close>,
  \<open>?\<close> and \<open>*\<close>.
\<close>

definition forbidden :: "char list" where
  "forbidden =
     [CHR ''<'', CHR ''>'', CHR '':'', CHR 0x22, CHR ''/'', CHR 0x5C, CHR ''|'', CHR ''?'',
      CHR ''*'']"

text \<open>\<open>re.sub(r'[<>:"/\\|?*]', '', name)\<close>: every match of the class is deleted.\<close>

definition re_sub_forbidden :: "string \<Rightarrow> string" where
  "re_sub_forbidden name = filter (\<lambda>c. c \<notin> set forbidden) name"

definition sanitize_filename :: "string \<Rightarrow> string" where
  "sanitize_filename name = strip (re_sub_forbidden name)"

section \<open>Errors\<close>

text \<open>
  The exceptions the modelled code can raise. \<open>NoReturn\<close> is not an exception: it
  stands for a call that never returns (the \<open>while True\<close> loop of the allocator).
\<close>

datatype error =
    KeyError
  | FileNotFoundError
  | FileExistsError
  | IsADirectoryError
  | UnidentifiedImageError
  | UnboundLocalError
  | NoReturn

section \<open>Paths\<close>

text \<open>
  A \<open>pathlib.Path\<close> in its POSIX flavour: whether the path is anchored at the root,
  and its components. \<open>parse_path\<close> is the constructor \<open>Path(s)\<close>: the string is
  split at \<open>/\<close>, and empty components and \<open>.\<close> components are dropped.
\<close>

datatype path = Path (is_absolute: bool) (parts: "string list")

fun split_sep :: "string \<Rightarrow> string list" where
  "split_sep [] = [[]]"
| "split_sep (c # cs) =
     (if c = CHR ''/'' then [] # split_sep cs
      else (case split_sep cs of [] \<Rightarrow> [[c]] | x # xs \<Rightarrow> (c # x) # xs))"

definition components :: "string \<Rightarrow> string list" where
  "components s = filter (\<lambda>c. c \<noteq> [] \<and> c \<noteq> ''.'') (split_sep s)"

definition parse_path :: "string \<Rightarrow> path" where
  "parse_path s = Path (s \<noteq> [] \<and> hd s = CHR ''/'') (components s)"

text \<open>\<open>p / s\<close> for a string \<open>s\<close>: an anchored right operand replaces the left one.\<close>

definition joinpath :: "path \<Rightarrow> string \<Rightarrow> path" where
  "joinpath p s =
     (let q = parse_path s
      in if is_absolute q then q else Path (is_absolute p) (parts p @ parts q))"

definition path_name :: "path \<Rightarrow> string" where
  "path_name p = (case parts p of [] \<Rightarrow> [] | _ # _ \<Rightarrow> last (parts p))"

text \<open>\<open>name.rfind('.')\<close>, with \<open>None\<close> for Python's \<open>-1\<close>.\<close>

definition rfind_dot :: "string \<Rightarrow> nat option" where
  "rfind_dot name =
     (if CHR ''.'' \<in> set name
      then Some (length name - 1 - length (takeWhile (\<lambda>c. c \<noteq> CHR ''.'') (rev name)))
      else None)"

text \<open>
  \<open>Path.suffix\<close> and \<open>Path.stem\<close>: the name is cut at its last dot when
  \<open>0 < i < len(name) - 1\<close> for the index \<open>i\<close> of that dot.
\<close>

definition path_suffix :: "path \<Rightarrow> string" where
  "path_suffix p =
     (let name = path_name p
      in case rfind_dot name of
           None \<Rightarrow> []
         | Some i \<Rightarrow> if 0 < i \<and> i < length name - 1 then drop i name else [])"

definition path_stem :: "path \<Rightarrow> string" where
  "path_stem p =
     (let name = path_name p
      in case rfind_dot name of
           None \<Rightarrow> name
         | Some i \<Rightarrow> if 0 < i \<and> i < length name - 1 then take i name else name)"

section \<open>File system\<close>

text \<open>
  The file system is the list of the paths that exist, in the order a directory scan
  yields them, each with its kind and the size \<open>stat\<close> reports. The first entry of a
  path is the one that counts.
\<close>

datatype entry = File (st_size: nat) | Dir (st_size: nat)

type_synonym filesystem = "(path \<times> entry) list"

definition path_exists :: "filesystem \<Rightarrow> path \<Rightarrow> bool" where
  "path_exists fs p = (map_of fs p \<noteq> None)"

definition path_is_file :: "filesystem \<Rightarrow> path \<Rightarrow> bool" where
  "path_is_file fs p = (case map_of fs p of Some (File n) \<Rightarrow> True | _ \<Rightarrow> False)"

text \<open>\<open>p.stat().st_size\<close> for a path that exists.\<close>

definition size_of :: "filesystem \<Rightarrow> path \<Rightarrow> nat" where
  "size_of fs p = (case map_of fs p of None \<Rightarrow> 0 | Some e \<Rightarrow> st_size e)"

text \<open>\<open>base.rglob("*")\<close>: every path strictly below \<open>base\<close>, in scan order.\<close>

definition is_below :: "path \<Rightarrow> path \<Rightarrow> bool" where
  "is_below base p =
     (is_absolute p = is_absolute base
      \<and> length (parts base) < length (parts p)
      \<and> take (length (parts base)) (parts p) = parts base)"

definition rglob :: "filesystem \<Rightarrow> path \<Rightarrow> path list" where
  "rglob fs base = filter (is_below base) (map fst fs)"

text \<open>
  Writing a file of \<open>n\<close> bytes at \<open>p\<close> (opening for writing, \<open>shutil.copy2\<close>, saving
  an image): an existing regular file is replaced, a new path is added at the end, and a
  directory at \<open>p\<close> makes the write fail. No other I/O failure is modelled.
\<close>

definition write_file :: "filesystem \<Rightarrow> path \<Rightarrow> nat \<Rightarrow> error + filesystem" where
  "write_file fs p n =
     (case map_of fs p of
        None \<Rightarrow> Inr (fs @ [(p, File n)])
      | Some (Dir k) \<Rightarrow> Inl IsADirectoryError
      | Some (File k) \<Rightarrow> Inr (map (\<lambda>(q, e). if q = p then (q, File n) else (q, e)) fs))"

text \<open>\<open>shutil.copy2(src, dst)\<close>.\<close>

definition copy2 :: "filesystem \<Rightarrow> path \<Rightarrow> path \<Rightarrow> error + filesystem" where
  "copy2 fs src dst =
     (case map_of fs src of
        None \<Rightarrow> Inl FileNotFoundError
      | Some (Dir k) \<Rightarrow> Inl IsADirectoryError
      | Some (File n) \<Rightarrow> write_file fs dst n)"

text \<open>
  \<open>convert_image(src, dst)\<close>. What Pillow decodes and encodes is a parameter: \<open>codec
  src dst\<close> is the size of the file it saves at \<open>dst\<close>, or \<open>None\<close> when it cannot read
  the source.
\<close>

definition convert_image ::
  "(path \<Rightarrow> path \<Rightarrow> nat option) \<Rightarrow> filesystem \<Rightarrow> path \<Rightarrow> path \<Rightarrow> error + filesystem" where
  "convert_image codec fs src dst =
     (case map_of fs src of
        None \<Rightarrow> Inl FileNotFoundError
      | Some (Dir k) \<Rightarrow> Inl IsADirectoryError
      | Some (File k) \<Rightarrow>
          (case codec src dst of
             None \<Rightarrow> Inl UnidentifiedImageError
           | Some n \<Rightarrow> write_file fs dst n))"

text \<open>
  \<open>p.mkdir(parents=True, exist_ok=True)\<close>: the missing ones among \<open>p\<close> and its
  ancestors are created; a regular file in the way makes it fail. The size a platform
  reports for a directory is not modelled: a new directory is recorded with size 0.
\<close>

definition ancestors_and_self :: "path \<Rightarrow> path list" where
  "ancestors_and_self p =
     map (\<lambda>n. Path (is_absolute p) (take n (parts p))) [1 ..< Suc (length (parts p))]"

definition mkdir_parents :: "filesystem \<Rightarrow> path \<Rightarrow> error + filesystem" where
  "mkdir_parents fs p =
     (if list_ex (path_is_file fs) (ancestors_and_self p) then Inl FileExistsError
      else Inr (fs @ map (\<lambda>q. (q, Dir 0))
                        (filter (\<lambda>q. \<not> path_exists fs q) (ancestors_and_self p))))"

section \<open>Path Index Builder\<close>

type_synonym image_index = "string \<rightharpoonup> path list"

text \<open>\<open>self.image_index.setdefault(stem, []).append(file)\<close>.\<close>

definition setdefault_append :: "image_index \<Rightarrow> string \<Rightarrow> path \<Rightarrow> image_index" where
  "setdefault_append idx stem file =
     (case idx stem of
        None \<Rightarrow> idx(stem \<mapsto> [] @ [file])
      | Some files \<Rightarrow> idx(stem \<mapsto> files @ [file]))"

text \<open>The body of the loop over \<open>base.rglob("*")\<close>.\<close>

fun index_files :: "filesystem \<Rightarrow> image_index \<Rightarrow> path list \<Rightarrow> image_index" where
  "index_files fs idx [] = idx"
| "index_files fs idx (file # files) =
     (if path_is_file fs file
      then index_files fs (setdefault_append idx (lower (path_stem file)) file) files
      else index_files fs idx files)"

text \<open>
  \<open>build_image_index\<close>, given the text of the base folder field. \<open>None\<close> is the
  result \<open>False\<close> (a warning was shown and no index was built).
\<close>

definition build_image_index :: "filesystem \<Rightarrow> string \<Rightarrow> image_index option" where
  "build_image_index fs base_edit =
     (let base_path = strip base_edit
      in if base_path = [] then None
         else let base = parse_path base_path
              in if \<not> path_exists fs base then None
                 else Some (index_files fs Map.empty (rglob fs base)))"

section \<open>Resolver\<close>

text \<open>The loop \<open>for p in candidates: if p.suffix.lower() == self.preferred_ext\<close>.\<close>

fun preferred_match :: "string \<Rightarrow> path list \<Rightarrow> path option" where
  "preferred_match preferred_ext [] = None"
| "preferred_match preferred_ext (p # ps) =
     (if lower (path_suffix p) = preferred_ext then Some p
      else preferred_match preferred_ext ps)"

text \<open>
  \<open>sorted(candidates, key=lambda x: x.stat().st_size, reverse=True)\<close>. The keys are
  computed first, so one missing file makes the call raise. With \<open>reverse=True\<close>
  Python reverses the list, sorts it stably in ascending order and reverses the result.
\<close>

definition sorted_by_size_reverse :: "filesystem \<Rightarrow> path list \<Rightarrow> error + path list" where
  "sorted_by_size_reverse fs candidates =
     (if list_all (path_exists fs) candidates
      then Inr (rev (sort_key (size_of fs) (rev candidates)))
      else Inl FileNotFoundError)"

definition find_image_file ::
  "image_index \<Rightarrow> filesystem \<Rightarrow> string \<Rightarrow> string \<Rightarrow> error + (path option \<times> bool option)" where
  "find_image_file image_index fs preferred_ext stem0 =
     (let stem = lower stem0
      in case image_index stem of
           None \<Rightarrow> Inr (None, None)
         | Some candidates \<Rightarrow>
             (case preferred_match preferred_ext candidates of
                Some p \<Rightarrow> Inr (Some p, Some False)
              | None \<Rightarrow>
                  (case sorted_by_size_reverse fs candidates of
                     Inl e \<Rightarrow> Inl e
                   | Inr fallback_files \<Rightarrow>
                       (case fallback_files of
                          f # _ \<Rightarrow> Inr (Some f, Some True)
                        | [] \<Rightarrow> Inr (None, None)))))"

text \<open>
  The specification's reading of "the extension case-insensitively equals the preferred
  extension": both are the same once lower-cased.
\<close>

definition same_ext :: "string \<Rightarrow> string \<Rightarrow> bool" where
  "same_ext a b = (lower a = lower b)"

section \<open>Output Path Allocator\<close>

text \<open>The decimal digits of a number, as an f-string renders \<open>{i}\<close>.\<close>

definition digit_char :: "nat \<Rightarrow> char" where
  "digit_char d = ''0123456789'' ! d"

fun str_nat :: "nat \<Rightarrow> string" where
  "str_nat n = (if n < 10 then [digit_char n] else str_nat (n div 10) @ [digit_char (n mod 10)])"

declare str_nat.simps [simp del]

text \<open>
  The \<open>while True\<close> loop of \<open>resolve_output_path\<close>, from the counter \<open>i\<close> on. A loop
  that never finds a free name has the value \<open>None\<close>.
\<close>

partial_function (option) next_free_path ::
  "filesystem \<Rightarrow> path \<Rightarrow> string \<Rightarrow> string \<Rightarrow> nat \<Rightarrow> path option" where
  "next_free_path fs out_dir base_name ext i =
     (let candidate = joinpath out_dir (base_name @ ''_'' @ str_nat i @ ext)
      in if \<not> path_exists fs candidate then Some candidate
         else next_free_path fs out_dir base_name ext (i + 1))"

declare next_free_path.simps [code]

definition resolve_output_path :: "filesystem \<Rightarrow> path \<Rightarrow> string \<Rightarrow> string \<Rightarrow> path option" where
  "resolve_output_path fs out_dir base_name0 ext =
     (let base_name = sanitize_filename base_name0;
          candidate = joinpath out_dir (base_name @ ext)
      in if \<not> path_exists fs candidate then Some candidate
         else next_free_path fs out_dir base_name ext 1)"

text \<open>
  The module-level \<open>get_safe_dest_path\<close>. Its loop is that of
  \<open>resolve_output_path\<close>, run with the parent, stem and suffix of the destination in
  place of the output directory, base name and extension.
\<close>

definition path_parent :: "path \<Rightarrow> path" where
  "path_parent p = Path (is_absolute p) (butlast (parts p))"

definition get_safe_dest_path :: "filesystem \<Rightarrow> path \<Rightarrow> path option" where
  "get_safe_dest_path fs dest_path =
     (if \<not> path_exists fs dest_path then Some dest_path
      else next_free_path fs (path_parent dest_path) (path_stem dest_path)
             (path_suffix dest_path) 1)"

text \<open>
  The names the allocator tries, in order: \<open>name.ext\<close> for 0, then \<open>name_1.ext\<close>,
  \<open>name_2.ext\<close> and so on.
\<close>

definition candidate_path :: "path \<Rightarrow> string \<Rightarrow> string \<Rightarrow> nat \<Rightarrow> path" where
  "candidate_path out_dir name ext k =
     (if k = 0 then joinpath out_dir (name @ ext)
      else joinpath out_dir (name @ ''_'' @ str_nat k @ ext))"

section \<open>Update check\<close>

definition APP_VERSION :: string where
  "APP_VERSION = ''1.0.0''"

text \<open>
  What \<open>requests.get\<close> followed by \<open>raise_for_status\<close> yields: an exception, or the
  text of the response.
\<close>

datatype response = RequestFailed | ResponseText string

definition check_for_updates :: "response \<Rightarrow> string option" where
  "check_for_updates r =
     (case r of
        RequestFailed \<Rightarrow> None
      | ResponseText text \<Rightarrow>
          (let latest_version = strip text
           in if latest_version \<noteq> APP_VERSION then Some latest_version else None))"

datatype standard_button = Yes | No

text \<open>
  The end of \<open>ImageTool.__init__\<close>, from the call of \<open>check_for_updates\<close> on. The
  local variable \<open>reply\<close> is \<open>None\<close> while it is unbound; \<open>answer\<close> is the button
  the user presses if the question is asked. The result tells whether the browser was
  opened.
\<close>

definition truthy :: "string option \<Rightarrow> bool" where
  "truthy v = (case v of None \<Rightarrow> False | Some s \<Rightarrow> s \<noteq> [])"

definition ImageTool_init :: "response \<Rightarrow> standard_button \<Rightarrow> error + bool" where
  "ImageTool_init r answer =
     (let latest = check_for_updates r;
          reply = (if truthy latest then Some answer else None)
      in case reply of
           None \<Rightarrow> Inl UnboundLocalError
         | Some b \<Rightarrow> Inr (b = Yes))"

section \<open>Batch Run Engine\<close>

text \<open>
  A cell of the data frame: \<open>NaN\<close> is a missing value (\<open>pd.isna\<close> holds), \<open>Value s\<close>
  is a present value whose \<open>str()\<close> is \<open>s\<close>. A row maps column names to cells.
\<close>

datatype cell = NaN | Value string

type_synonym row = "(string \<times> cell) list"

definition isna :: "cell \<Rightarrow> bool" where
  "isna c = (case c of NaN \<Rightarrow> True | Value s \<Rightarrow> False)"

definition str_cell :: "cell \<Rightarrow> string" where
  "str_cell c = (case c of NaN \<Rightarrow> ''nan'' | Value s \<Rightarrow> s)"

text \<open>\<open>row[col]\<close>.\<close>

definition getitem :: "row \<Rightarrow> string \<Rightarrow> error + cell" where
  "getitem r col = (case map_of r col of None \<Rightarrow> Inl KeyError | Some c \<Rightarrow> Inr c)"

text \<open>The lines of the log and the dialogs shown to the user, in the order they occur.\<close>

datatype event =
    Log_new_run nat string bool string
  | Log_empty_path
  | Log_copy_preferred path path
  | Log_fallback_found path
  | Log_cancelled
  | Log_skipped
  | Log_convert_all
  | Log_convert_fallback path path
  | Log_copy_fallback path path
  | Log_not_found string
  | Log_run_complete nat nat nat nat nat nat
  | Message_completed nat nat nat nat nat nat bool

text \<open>
  The fields of \<open>self\<close> that \<open>run\<close> reads: the data frame, the texts of the widgets,
  the settings, and the surroundings of the run (the result code of the n-th conversion
  dialog, with \<open>None\<close> for a dialog closed without a button; the image codec; the size
  of the workbook written for a list of rows).
\<close>

record image_tool =
  df :: "row list option"
  image_col :: string
  newname_col :: string
  vendor_col :: string
  vendor_value :: string
  base_edit :: string
  out_edit :: string
  preferred_ext :: string
  fallback_mode :: string
  preview_toggle :: string
  dialog_results :: "nat \<Rightarrow> int option"
  codec :: "path \<Rightarrow> path \<Rightarrow> nat option"
  xlsx_size :: "row list \<Rightarrow> nat"

text \<open>The state a run updates: its counters, the rows not found, and its effects.\<close>

record run_state =
  copied_original :: nat
  copied_renamed :: nat
  converted_original :: nat
  converted_renamed :: nat
  not_found_rows :: "row list"
  convert_all_mode :: bool
  dialogs_shown :: nat
  fs :: filesystem
  trace :: "event list"
  report :: "row list option"

definition emit :: "event \<Rightarrow> run_state \<Rightarrow> run_state" where
  "emit e st = st\<lparr>trace := trace st @ [e]\<rparr>"

text \<open>\<open>rename_enabled = bool(rename_col and rename_col.strip())\<close>.\<close>

definition rename_enabled :: "image_tool \<Rightarrow> bool" where
  "rename_enabled self = (newname_col self \<noteq> [] \<and> strip (newname_col self) \<noteq> [])"

definition out_dir :: "image_tool \<Rightarrow> path" where
  "out_dir self = parse_path (out_edit self)"

text \<open>How the body of the row loop ends: with the next row, or with \<open>return\<close>.\<close>

datatype flow = Next run_state | Return run_state

definition state_of :: "flow \<Rightarrow> run_state" where
  "state_of f = (case f of Next st \<Rightarrow> st | Return st \<Rightarrow> st)"

text \<open>"Determine output stem".\<close>

definition output_stem_of :: "image_tool \<Rightarrow> row \<Rightarrow> string \<Rightarrow> error + string" where
  "output_stem_of self r original_stem =
     (if rename_enabled self
      then (case getitem r (newname_col self) of
              Inl e \<Rightarrow> Inl e
            | Inr new_value \<Rightarrow>
                if \<not> isna new_value \<and> strip (str_cell new_value) \<noteq> []
                then Inr (sanitize_filename (strip (str_cell new_value)))
                else Inr original_stem)
      else Inr original_stem)"

text \<open>The two tallies, as the three places that count a written file have them.\<close>

definition count_copied :: "image_tool \<Rightarrow> run_state \<Rightarrow> run_state" where
  "count_copied self st =
     (if rename_enabled self then st\<lparr>copied_renamed := copied_renamed st + 1\<rparr>
      else st\<lparr>copied_original := copied_original st + 1\<rparr>)"

definition count_converted :: "image_tool \<Rightarrow> run_state \<Rightarrow> run_state" where
  "count_converted self st =
     (if rename_enabled self then st\<lparr>converted_renamed := converted_renamed st + 1\<rparr>
      else st\<lparr>converted_original := converted_original st + 1\<rparr>)"

definition mark_not_found :: "row \<Rightarrow> string \<Rightarrow> run_state \<Rightarrow> run_state" where
  "mark_not_found r filename st =
     (emit (Log_not_found filename) st)\<lparr>not_found_rows := not_found_rows st @ [r]\<rparr>"

text \<open>The branch \<open>if not was_fallback\<close>.\<close>

definition copy_preferred ::
  "image_tool \<Rightarrow> run_state \<Rightarrow> path \<Rightarrow> path \<Rightarrow> error + flow" where
  "copy_preferred self st src_path dest_path =
     (let st1 = emit (Log_copy_preferred src_path dest_path) st
      in case copy2 (fs st1) src_path dest_path of
           Inl e \<Rightarrow> Inl e
         | Inr fs' \<Rightarrow> Inr (Next (count_copied self (st1\<lparr>fs := fs'\<rparr>))))"

text \<open>
  The conversion dialog, shown under the three conditions of the source. With \<open>Inr st\<close>
  the row goes on; \<open>Inl\<close> tells how the body of the loop is left: \<open>Return\<close> for
  Cancel All, \<open>Next\<close> for Skip (\<open>continue\<close>).
\<close>

definition ask_conversion :: "image_tool \<Rightarrow> run_state \<Rightarrow> flow + run_state" where
  "ask_conversion self st =
     (if fallback_mode self = ''convert'' \<or> fallback_mode self = ''copy''
      then if fallback_mode self = ''convert'' \<and> \<not> convert_all_mode st
              \<and> preview_toggle self = ''Show preview before overwriting''
           then (let result = dialog_results self (dialogs_shown st);
                     st1 = st\<lparr>dialogs_shown := dialogs_shown st + 1\<rparr>
                 in if result = Some (- 1) then Inl (Return (emit Log_cancelled st1))
                    else if result = Some 0 then Inl (Next (emit Log_skipped st1))
                    else if result = Some 2
                    then Inr ((emit Log_convert_all st1)\<lparr>convert_all_mode := True\<rparr>)
                    else Inr st1)
           else Inr st
      else Inr st)"

text \<open>The branch of a fallback match.\<close>

definition handle_fallback ::
  "image_tool \<Rightarrow> run_state \<Rightarrow> row \<Rightarrow> string \<Rightarrow> path \<Rightarrow> path \<Rightarrow> error + flow" where
  "handle_fallback self st r filename src_path dest_path =
     (case ask_conversion self (emit (Log_fallback_found src_path) st) of
        Inl f \<Rightarrow> Inr f
      | Inr st1 \<Rightarrow>
          if fallback_mode self = ''convert''
          then (let st2 = emit (Log_convert_fallback src_path dest_path) st1
                in case convert_image (codec self) (fs st2) src_path dest_path of
                     Inl e \<Rightarrow> Inl e
                   | Inr fs' \<Rightarrow> Inr (Next (count_converted self (st2\<lparr>fs := fs'\<rparr>))))
          else if fallback_mode self = ''copy''
          then (let st2 = emit (Log_copy_fallback src_path dest_path) st1
                in case copy2 (fs st2) src_path dest_path of
                     Inl e \<Rightarrow> Inl e
                   | Inr fs' \<Rightarrow> Inr (Next (count_copied self (st2\<lparr>fs := fs'\<rparr>))))
          else Inr (Next (mark_not_found r filename st1)))"

text \<open>The body of the loop over the rows.\<close>

definition process_row ::
  "image_tool \<Rightarrow> image_index \<Rightarrow> run_state \<Rightarrow> row \<Rightarrow> error + flow" where
  "process_row self image_index st r =
     (case getitem r (image_col self) of
        Inl e \<Rightarrow> Inl e
      | Inr raw_path \<Rightarrow>
          if isna raw_path
          then Inr (Next ((emit Log_empty_path st)\<lparr>not_found_rows := not_found_rows st @ [r]\<rparr>))
          else
            (let filename = path_name (parse_path (str_cell raw_path));
                 original_stem = lower (path_stem (parse_path filename))
             in case output_stem_of self r original_stem of
                  Inl e \<Rightarrow> Inl e
                | Inr output_stem \<Rightarrow>
                    (case find_image_file image_index (fs st) (preferred_ext self) original_stem of
                       Inl e \<Rightarrow> Inl e
                     | Inr (None, was_fallback) \<Rightarrow> Inr (Next (mark_not_found r filename st))
                     | Inr (Some src_path, was_fallback) \<Rightarrow>
                         (case resolve_output_path (fs st) (out_dir self) output_stem
                                 (preferred_ext self) of
                            None \<Rightarrow> Inl NoReturn
                          | Some dest_path \<Rightarrow>
                              if was_fallback \<noteq> Some True
                              then copy_preferred self st src_path dest_path
                              else handle_fallback self st r filename src_path dest_path))))"

fun process_rows ::
  "image_tool \<Rightarrow> image_index \<Rightarrow> run_state \<Rightarrow> row list \<Rightarrow> error + flow" where
  "process_rows self image_index st [] = Inr (Next st)"
| "process_rows self image_index st (r # rs) =
     (case process_row self image_index st r of
        Inl e \<Rightarrow> Inl e
      | Inr (Return st') \<Rightarrow> Inr (Return st')
      | Inr (Next st') \<Rightarrow> process_rows self image_index st' rs)"

text \<open>
  The vendor filter: \<open>rows[vendor_col].astype(str).str.strip() == selected_vendor\<close>.
\<close>

fun filter_vendor :: "string \<Rightarrow> string \<Rightarrow> row list \<Rightarrow> error + row list" where
  "filter_vendor col vendor [] = Inr []"
| "filter_vendor col vendor (r # rs) =
     (case getitem r col of
        Inl e \<Rightarrow> Inl e
      | Inr c \<Rightarrow>
          (case filter_vendor col vendor rs of
             Inl e \<Rightarrow> Inl e
           | Inr rs' \<Rightarrow> Inr (if strip (str_cell c) = vendor then r # rs' else rs')))"

definition select_rows :: "image_tool \<Rightarrow> row list \<Rightarrow> error + row list" where
  "select_rows self rows =
     (if vendor_col self \<noteq> [] \<and> vendor_value self \<noteq> ''All Vendors''
      then filter_vendor (vendor_col self) (vendor_value self) rows
      else Inr rows)"

text \<open>
  The end of \<open>run\<close>, from \<open>if not_found_rows:\<close> on. The summary lines of the log and
  the completion message stand inside that \<open>if\<close>, as the report does.
\<close>

definition finalize :: "image_tool \<Rightarrow> nat \<Rightarrow> run_state \<Rightarrow> error + run_state" where
  "finalize self total_rows st =
     (if not_found_rows st \<noteq> []
      then (case write_file (fs st) (joinpath (out_dir self) ''not_found_images.xlsx'')
                   (xlsx_size self (not_found_rows st)) of
              Inl e \<Rightarrow> Inl e
            | Inr fs' \<Rightarrow>
                Inr (emit (Message_completed total_rows (copied_original st) (copied_renamed st)
                             (converted_original st) (converted_renamed st)
                             (length (not_found_rows st)) (not_found_rows st \<noteq> []))
                      (emit (Log_run_complete total_rows (copied_original st) (copied_renamed st)
                               (converted_original st) (converted_renamed st)
                               (length (not_found_rows st)))
                         (st\<lparr>fs := fs', report := Some (not_found_rows st)\<rparr>))))
      else Inr st)"

text \<open>How \<open>run\<close> ends: a warning and no run, a run left by Cancel All, a finished run.\<close>

datatype outcome = Rejected | Cancelled run_state | Finished run_state

definition initial_state :: "filesystem \<Rightarrow> run_state" where
  "initial_state fs0 =
     \<lparr>copied_original = 0, copied_renamed = 0, converted_original = 0, converted_renamed = 0,
      not_found_rows = [], convert_all_mode = False, dialogs_shown = 0, fs = fs0, trace = [],
      report = None\<rparr>"

definition run :: "image_tool \<Rightarrow> filesystem \<Rightarrow> error + outcome" where
  "run self fs0 =
     (case df self of
        None \<Rightarrow> Inr Rejected
      | Some rows0 \<Rightarrow>
          if image_col self = [] then Inr Rejected
          else if strip (out_edit self) = []
          then Inr Rejected
          else
            (case build_image_index fs0 (base_edit self) of
               None \<Rightarrow> Inr Rejected
             | Some image_index \<Rightarrow>
                 (case mkdir_parents fs0 (out_dir self) of
                    Inl e \<Rightarrow> Inl e
                  | Inr fs1 \<Rightarrow>
                      (case write_file fs1 (joinpath (out_dir self) ''process_log.txt'') 0 of
                         Inl e \<Rightarrow> Inl e
                       | Inr fs2 \<Rightarrow>
                           (case select_rows self rows0 of
                              Inl e \<Rightarrow> Inl e
                            | Inr rows \<Rightarrow>
                                (let total_rows = length rows;
                                     st = emit (Log_new_run total_rows (preferred_ext self)
                                                  (rename_enabled self) (fallback_mode self))
                                            (initial_state fs2)
                                 in case process_rows self image_index st rows of
                                      Inl e \<Rightarrow> Inl e
                                    | Inr (Return st') \<Rightarrow> Inr (Cancelled st')
                                    | Inr (Next st') \<Rightarrow>
                                        (case finalize self total_rows st' of
                                           Inl e \<Rightarrow> Inl e
                                         | Inr st'' \<Rightarrow> Inr (Finished st''))))))))"

text \<open>
  The four counters of a state, and the tally rule the loop body follows: a step that
  leaves the file system as it is leaves the counters as they are, and a step that writes
  a file adds one to a "renamed" counter when a rename column is selected for the run, to
  an "original" counter otherwise.
\<close>

definition tallies :: "run_state \<Rightarrow> nat \<times> nat \<times> nat \<times> nat" where
  "tallies st = (copied_original st, copied_renamed st, converted_original st, converted_renamed st)"

definition tally_rule :: "image_tool \<Rightarrow> run_state \<Rightarrow> run_state \<Rightarrow> bool" where
  "tally_rule self st st' =
     (if fs st' = fs st then tallies st' = tallies st
      else if rename_enabled self
      then tallies st' = (copied_original st, copied_renamed st + 1, converted_original st,
                          converted_renamed st)
           \<or> tallies st' = (copied_original st, copied_renamed st, converted_original st,
                             converted_renamed st + 1)
      else tallies st' = (copied_original st + 1, copied_renamed st, converted_original st,
                          converted_renamed st)
           \<or> tallies st' = (copied_original st, copied_renamed st, converted_original st + 1,
                             converted_renamed st))"

section \<open>Properties of the sanitizer\<close>

lemma set_strip_subset: "set (strip s) \<subseteq> set s"
proof -
  have "set (strip s) \<subseteq> set (lstrip s)"
    unfolding strip_def rstrip_def using set_dropWhileD by fastforce
  also have "\<dots> \<subseteq> set s"
    unfolding lstrip_def using set_dropWhileD by fastforce
  finally show ?thesis .
qed

lemma lstrip_decomp: "\<exists>l. s = l @ lstrip s \<and> (\<forall>c \<in> set l. is_space c)"
proof -
  have "s = takeWhile is_space s @ lstrip s"
    by (simp add: lstrip_def)
  moreover have "\<forall>c \<in> set (takeWhile is_space s). is_space c"
    by (auto dest: set_takeWhileD)
  ultimately show ?thesis by blast
qed

lemma rstrip_decomp: "\<exists>r. s = rstrip s @ r \<and> (\<forall>c \<in> set r. is_space c)"
proof -
  obtain l where l: "rev s = l @ lstrip (rev s)" "\<forall>c \<in> set l. is_space c"
    using lstrip_decomp by blast
  have "s = rev (lstrip (rev s)) @ rev l"
    using l(1) by (metis rev_append rev_rev_ident)
  then have "s = rstrip s @ rev l"
    by (simp add: rstrip_def lstrip_def)
  with l(2) show ?thesis
    by (metis set_rev)
qed

lemma strip_decomp:
  "\<exists>l r. s = l @ strip s @ r \<and> (\<forall>c \<in> set l. is_space c) \<and> (\<forall>c \<in> set r. is_space c)"
proof -
  obtain l where l: "s = l @ lstrip s" "\<forall>c \<in> set l. is_space c"
    using lstrip_decomp by blast
  obtain r where r: "lstrip s = strip s @ r" "\<forall>c \<in> set r. is_space c"
    unfolding strip_def using rstrip_decomp by blast
  from l(1) r(1) have "s = l @ strip s @ r" by simp
  with l(2) r(2) show ?thesis by blast
qed

lemma lstrip_hd: "lstrip s \<noteq> [] \<Longrightarrow> \<not> is_space (hd (lstrip s))"
  unfolding lstrip_def by (metis hd_dropWhile)

lemma rstrip_last: "rstrip s \<noteq> [] \<Longrightarrow> \<not> is_space (last (rstrip s))"
  unfolding rstrip_def by (metis hd_dropWhile last_rev rev_is_Nil_conv)

lemma lstrip_id: "s = [] \<or> \<not> is_space (hd s) \<Longrightarrow> lstrip s = s"
  by (cases s) (auto simp: lstrip_def)

lemma rstrip_id: "s = [] \<or> \<not> is_space (last s) \<Longrightarrow> rstrip s = s"
proof -
  assume a: "s = [] \<or> \<not> is_space (last s)"
  then have "rev s = [] \<or> \<not> is_space (hd (rev s))"
    by (auto simp: hd_rev)
  then have "dropWhile is_space (rev s) = rev s"
    by (cases "rev s") auto
  then show ?thesis
    by (simp add: rstrip_def)
qed

lemma rstrip_hd: "rstrip s \<noteq> [] \<Longrightarrow> hd (rstrip s) = hd s"
proof -
  assume n: "rstrip s \<noteq> []"
  obtain r where "s = rstrip s @ r"
    using rstrip_decomp by blast
  then have "hd s = hd (rstrip s @ r)" by simp
  with n show ?thesis by simp
qed

lemma strip_hd: "strip s \<noteq> [] \<Longrightarrow> \<not> is_space (hd (strip s))"
proof -
  assume n: "strip s \<noteq> []"
  then have "hd (strip s) = hd (lstrip s)"
    unfolding strip_def by (rule rstrip_hd)
  moreover have "lstrip s \<noteq> []"
    using n by (auto simp: strip_def rstrip_def)
  ultimately show ?thesis
    using lstrip_hd by simp
qed

lemma strip_last: "strip s \<noteq> [] \<Longrightarrow> \<not> is_space (last (strip s))"
  unfolding strip_def by (rule rstrip_last)

lemma strip_strip: "strip (strip s) = strip s"
proof -
  have "lstrip (strip s) = strip s"
    using strip_hd by (intro lstrip_id) blast
  moreover have "rstrip (strip s) = strip s"
    using strip_last by (intro rstrip_id) blast
  ultimately show ?thesis
    by (simp add: strip_def)
qed

lemma strip_all_space: "\<forall>c \<in> set s. is_space c \<Longrightarrow> strip s = []"
proof -
  assume "\<forall>c \<in> set s. is_space c"
  then have "lstrip s = []"
    by (simp add: lstrip_def dropWhile_eq_Nil_conv)
  then show ?thesis
    by (simp add: strip_def rstrip_def)
qed

lemma sanitize_no_forbidden: "set (sanitize_filename s) \<inter> set forbidden = {}"
  using set_strip_subset [of "re_sub_forbidden s"]
  by (auto simp: sanitize_filename_def re_sub_forbidden_def)

lemma re_sub_sanitize: "re_sub_forbidden (sanitize_filename s) = sanitize_filename s"
  unfolding re_sub_forbidden_def
  using sanitize_no_forbidden [of s] by (intro filter_True) blast

lemma sanitize_idem: "sanitize_filename (sanitize_filename s) = sanitize_filename s"
proof -
  have "sanitize_filename (sanitize_filename s) = strip (sanitize_filename s)"
    by (simp add: sanitize_filename_def [of "sanitize_filename s"] re_sub_sanitize)
  also have "\<dots> = sanitize_filename s"
    by (simp add: sanitize_filename_def strip_strip)
  finally show ?thesis .
qed

text \<open>
  Claim C8. The Filename Sanitizer is a total function on strings. Its result contains
  none of the characters \<open><>:"/\|?*\<close>; it is the input with exactly these characters
  deleted and a run of whitespace cut from each end, so it neither starts nor ends with
  whitespace; it is idempotent; and an empty or whitespace-only input yields the empty
  string.
\<close>

theorem sanitize_filename_spec:
  "set (sanitize_filename s) \<inter> set forbidden = {}
   \<and> (\<exists>l r. filter (\<lambda>c. c \<notin> set forbidden) s = l @ sanitize_filename s @ r
          \<and> (\<forall>c \<in> set l. is_space c) \<and> (\<forall>c \<in> set r. is_space c))
   \<and> (sanitize_filename s \<noteq> [] \<longrightarrow>
        \<not> is_space (hd (sanitize_filename s)) \<and> \<not> is_space (last (sanitize_filename s)))
   \<and> sanitize_filename (sanitize_filename s) = sanitize_filename s
   \<and> ((\<forall>c \<in> set s. is_space c) \<longrightarrow> sanitize_filename s = [])"
proof (intro conjI impI)
  show "set (sanitize_filename s) \<inter> set forbidden = {}"
    by (rule sanitize_no_forbidden)
  show "\<exists>l r. filter (\<lambda>c. c \<notin> set forbidden) s = l @ sanitize_filename s @ r
          \<and> (\<forall>c \<in> set l. is_space c) \<and> (\<forall>c \<in> set r. is_space c)"
    using strip_decomp [of "re_sub_forbidden s"]
    by (simp add: sanitize_filename_def re_sub_forbidden_def)
  show "sanitize_filename (sanitize_filename s) = sanitize_filename s"
    by (rule sanitize_idem)
next
  assume "sanitize_filename s \<noteq> []"
  then show "\<not> is_space (hd (sanitize_filename s))"
    unfolding sanitize_filename_def by (rule strip_hd)
next
  assume "sanitize_filename s \<noteq> []"
  then show "\<not> is_space (last (sanitize_filename s))"
    unfolding sanitize_filename_def by (rule strip_last)
next
  assume a: "\<forall>c \<in> set s. is_space c"
  have "\<forall>c \<in> set (re_sub_forbidden s). is_space c"
    using a by (simp add: re_sub_forbidden_def)
  then show "sanitize_filename s = []"
    unfolding sanitize_filename_def by (rule strip_all_space)
qed

theorem sanitize_filename_spec_witness:
  "sanitize_filename '' a<b:c '' = ''abc''
   \<and> sanitize_filename '' a<b:c '' \<noteq> []
   \<and> \<not> is_space (hd (sanitize_filename '' a<b:c ''))
   \<and> \<not> is_space (last (sanitize_filename '' a<b:c ''))
   \<and> list_all is_space ''  ''
   \<and> sanitize_filename ''  '' = []"
  using sanitize_filename_spec [of "'' a<b:c ''"] sanitize_filename_spec [of "''  ''"]
  by (simp add: sanitize_filename_def re_sub_forbidden_def forbidden_def strip_def lstrip_def
      rstrip_def is_space_def)

section \<open>Properties of the resolver\<close>

lemma preferred_match_None_iff:
  "preferred_match e ps = None \<longleftrightarrow> (\<forall>p \<in> set ps. lower (path_suffix p) \<noteq> e)"
  by (induction ps) auto

lemma preferred_match_Some:
  "preferred_match e ps = Some p \<Longrightarrow>
     \<exists>i < length ps. p = ps ! i \<and> lower (path_suffix (ps ! i)) = e
        \<and> (\<forall>j < i. lower (path_suffix (ps ! j)) \<noteq> e)"
proof (induction ps)
  case Nil
  then show ?case by simp
next
  case (Cons q qs)
  show ?case
  proof (cases "lower (path_suffix q) = e")
    case True
    with Cons.prems have "p = q" by simp
    with True show ?thesis by (intro exI [of _ 0]) simp
  next
    case False
    with Cons.prems have "preferred_match e qs = Some p" by simp
    then obtain i where i: "i < length qs" "p = qs ! i" "lower (path_suffix (qs ! i)) = e"
      "\<forall>j < i. lower (path_suffix (qs ! j)) \<noteq> e"
      using Cons.IH by blast
    have "\<forall>j < Suc i. lower (path_suffix ((q # qs) ! j)) \<noteq> e"
      using False i(4) by (auto simp: less_Suc_eq_0_disj)
    with i(1,2,3) show ?thesis
      by (intro exI [of _ "Suc i"]) simp
  qed
qed

lemma hd_filter_index:
  "filter P xs \<noteq> [] \<Longrightarrow>
     \<exists>i < length xs. hd (filter P xs) = xs ! i \<and> P (xs ! i) \<and> (\<forall>j < i. \<not> P (xs ! j))"
proof (induction xs)
  case Nil
  then show ?case by simp
next
  case (Cons x xs)
  show ?case
  proof (cases "P x")
    case True
    then show ?thesis by (intro exI [of _ 0]) simp
  next
    case False
    with Cons.prems have "filter P xs \<noteq> []" by simp
    then obtain i where i: "i < length xs" "hd (filter P xs) = xs ! i" "P (xs ! i)"
      "\<forall>j < i. \<not> P (xs ! j)"
      using Cons.IH by blast
    have "\<forall>j < Suc i. \<not> P ((x # xs) ! j)"
      using False i(4) by (auto simp: less_Suc_eq_0_disj)
    with i(1,2,3) False show ?thesis
      by (intro exI [of _ "Suc i"]) simp
  qed
qed

lemma last_filter_last: "xs \<noteq> [] \<Longrightarrow> P (last xs) \<Longrightarrow> last (filter P xs) = last xs"
  by (induction xs) (auto simp: filter_empty_conv)

lemma sorted_map_le_last:
  "sorted (map f xs) \<Longrightarrow> x \<in> set xs \<Longrightarrow> f x \<le> f (last xs)"
  by (induction xs) (auto simp: )

lemma hd_sorted_reverse:
  fixes f :: "'a \<Rightarrow> nat"
  assumes "xs \<noteq> []"
  shows "\<exists>i < length xs. hd (rev (sort_key f (rev xs))) = xs ! i
           \<and> (\<forall>j < length xs. f (xs ! j) \<le> f (xs ! i))
           \<and> (\<forall>j < i. f (xs ! j) < f (xs ! i))"
proof -
  define ys where "ys = sort_key f (rev xs)"
  define r where "r = last ys"
  have ne: "ys \<noteq> []"
    using assms by (metis ys_def set_sort set_rev set_empty)
  have hd_r: "hd (rev ys) = r"
    using ne by (simp add: r_def hd_rev)
  have max: "\<And>x. x \<in> set xs \<Longrightarrow> f x \<le> f r"
  proof -
    fix x assume "x \<in> set xs"
    then have "x \<in> set ys" by (simp add: ys_def)
    moreover have "sorted (map f ys)" by (simp add: ys_def)
    ultimately show "f x \<le> f r"
      unfolding r_def by (rule sorted_map_le_last [rotated])
  qed
  have "filter (\<lambda>y. f y = f r) ys = filter (\<lambda>y. f y = f r) (rev xs)"
    unfolding ys_def by (rule sort_key_stable)
  then have "last (filter (\<lambda>y. f y = f r) ys) = last (rev (filter (\<lambda>y. f y = f r) xs))"
    by (simp add: rev_filter)
  moreover have "last (filter (\<lambda>y. f y = f r) ys) = r"
    using ne by (simp add: r_def last_filter_last)
  moreover have fne: "filter (\<lambda>y. f y = f r) xs \<noteq> []"
  proof -
    have "r \<in> set ys" using ne by (simp add: r_def)
    then have "r \<in> set xs" by (simp add: ys_def)
    then show ?thesis by (auto simp: filter_empty_conv)
  qed
  ultimately have hr: "hd (filter (\<lambda>y. f y = f r) xs) = r"
    by (simp add: last_rev)
  obtain i where i: "i < length xs" "hd (filter (\<lambda>y. f y = f r) xs) = xs ! i"
      "f (xs ! i) = f r" "\<forall>j < i. f (xs ! j) \<noteq> f r"
    using hd_filter_index [OF fne] by blast
  have ri: "xs ! i = r"
    using hr i(2) by (metis)
  have "\<forall>j < length xs. f (xs ! j) \<le> f (xs ! i)"
    unfolding ri using max by simp
  moreover have "\<forall>j < i. f (xs ! j) < f (xs ! i)"
  proof (intro allI impI)
    fix j assume "j < i"
    then have "f (xs ! j) \<noteq> f r" "f (xs ! j) \<le> f r"
      using i(1,4) max by simp_all
    then show "f (xs ! j) < f (xs ! i)"
      unfolding ri by simp
  qed
  moreover have "hd (rev (sort_key f (rev xs))) = xs ! i"
    using hd_r unfolding ri ys_def .
  ultimately show ?thesis
    using i(1) by blast
qed

lemma lower_char_idem: "lower_char (lower_char c) = lower_char c"
proof -
  define n where "n = (of_char c :: nat)"
  show ?thesis
  proof (cases "(65 \<le> n \<and> n \<le> 90) \<or> (192 \<le> n \<and> n \<le> 214) \<or> (216 \<le> n \<and> n \<le> 222)")
    case True
    then have l: "lower_char c = char_of (n + 32)"
      by (simp add: lower_char_def n_def Let_def)
    have "(of_char (char_of (n + 32)) :: nat) = n + 32"
      using True by auto
    then show ?thesis
      unfolding l using True by (auto simp: lower_char_def [of "char_of (n + 32)"] Let_def)
  next
    case False
    then have "lower_char c = c"
      by (auto simp: lower_char_def n_def Let_def)
    then show ?thesis by simp
  qed
qed

lemma lower_idem: "lower (lower s) = lower s"
  by (simp add: lower_def lower_char_idem)

lemma find_image_file_absent:
  "idx (lower stem) = None \<Longrightarrow>
     find_image_file idx fsys pref stem = Inr (None, None)"
  by (simp add: find_image_file_def)

lemma find_image_file_match:
  "idx (lower stem) = Some candidates \<Longrightarrow>
   preferred_match pref candidates = Some p \<Longrightarrow>
     find_image_file idx fsys pref stem = Inr (Some p, Some False)"
  by (simp add: find_image_file_def)

lemma find_image_file_fallback:
  assumes "idx (lower stem) = Some candidates"
    and "candidates \<noteq> []"
    and "preferred_match pref candidates = None"
    and "list_all (path_exists fsys) candidates"
  shows "find_image_file idx fsys pref stem =
           Inr (Some (hd (rev (sort_key (size_of fsys) (rev candidates)))), Some True)"
proof -
  define l where "l = rev (sort_key (size_of fsys) (rev candidates))"
  have "length l = length candidates"
    by (simp add: l_def)
  with assms(2) have "l \<noteq> []" by auto
  then obtain f rest where l: "l = f # rest"
    by (cases l) auto
  have "sorted_by_size_reverse fsys candidates = Inr (f # rest)"
    using assms(4) l by (simp add: sorted_by_size_reverse_def l_def)
  then have "find_image_file idx fsys pref stem = Inr (Some f, Some True)"
    using assms(1,3) by (simp add: find_image_file_def)
  moreover have "hd l = f" using l by simp
  ultimately show ?thesis by (simp add: l_def)
qed

lemma same_ext_lower: "lower pref = pref \<Longrightarrow> same_ext a pref \<longleftrightarrow> lower a = pref"
  by (simp add: same_ext_def)

lemma lower_eq_same_ext: "lower a = pref \<Longrightarrow> same_ext a pref"
  unfolding same_ext_def using lower_idem [of a] by simp

text \<open>
  Claim C5. For every stem and index: when the lower-cased stem has no entry in the index
  the Resolver returns \<open>(None, None)\<close>; when some candidate of the stem has an
  extension that case-insensitively equals the preferred extension (one of the lower-case
  extensions the tool offers), the Resolver returns the first such candidate of the list,
  with \<open>was_fallback = False\<close>.
\<close>

theorem find_image_file_preferred:
  assumes "lower pref = pref"
  shows "(idx (lower stem) = None \<longrightarrow> find_image_file idx fsys pref stem = Inr (None, None))
    \<and> (\<forall>candidates.
          idx (lower stem) = Some candidates
          \<and> (\<exists>p \<in> set candidates. same_ext (path_suffix p) pref) \<longrightarrow>
          (\<exists>i < length candidates.
             find_image_file idx fsys pref stem = Inr (Some (candidates ! i), Some False)
             \<and> same_ext (path_suffix (candidates ! i)) pref
             \<and> (\<forall>j < i. \<not> same_ext (path_suffix (candidates ! j)) pref)))"
proof (intro conjI allI impI)
  assume "idx (lower stem) = None"
  then show "find_image_file idx fsys pref stem = Inr (None, None)"
    by (rule find_image_file_absent)
next
  fix candidates
  assume a: "idx (lower stem) = Some candidates
             \<and> (\<exists>p \<in> set candidates. same_ext (path_suffix p) pref)"
  then have "\<exists>p \<in> set candidates. lower (path_suffix p) = pref"
    using assms by (simp add: same_ext_lower)
  then have "preferred_match pref candidates \<noteq> None"
    by (simp add: preferred_match_None_iff)
  then obtain p where p: "preferred_match pref candidates = Some p"
    by blast
  then obtain i where i: "i < length candidates" "p = candidates ! i"
      "lower (path_suffix (candidates ! i)) = pref"
      "\<forall>j < i. lower (path_suffix (candidates ! j)) \<noteq> pref"
    using preferred_match_Some by blast
  have "find_image_file idx fsys pref stem = Inr (Some (candidates ! i), Some False)"
    using a p i(2) by (simp add: find_image_file_match)
  moreover have "same_ext (path_suffix (candidates ! i)) pref"
    using i(3) assms by (simp add: same_ext_lower)
  moreover have "\<forall>j < i. \<not> same_ext (path_suffix (candidates ! j)) pref"
    using i(4) assms by (simp add: same_ext_lower)
  ultimately show "\<exists>i < length candidates.
             find_image_file idx fsys pref stem = Inr (Some (candidates ! i), Some False)
             \<and> same_ext (path_suffix (candidates ! i)) pref
             \<and> (\<forall>j < i. \<not> same_ext (path_suffix (candidates ! j)) pref)"
    using i(1) by blast
qed

theorem find_image_file_preferred_witness:
  "lower ''.jpg'' = ''.jpg''
   \<and> find_image_file Map.empty [] ''.jpg'' ''SKU'' = Inr (None, None)
   \<and> find_image_file
        [''sku'' \<mapsto> [Path True [''b'', ''sku.png''], Path True [''b'', ''sku.JPG''],
                     Path True [''b'', ''sku.jpg'']]] [] ''.jpg'' ''SKU''
       = Inr (Some (Path True [''b'', ''sku.JPG'']), Some False)"
  using find_image_file_preferred [of "''.jpg''" "Map.empty" "''SKU''" "[]"]
    find_image_file_preferred [of "''.jpg''"
      "[''sku'' \<mapsto> [Path True [''b'', ''sku.png''], Path True [''b'', ''sku.JPG''],
                     Path True [''b'', ''sku.jpg'']]]" "''SKU''" "[]"]
  by (simp add: find_image_file_def path_suffix_def path_name_def rfind_dot_def lower_def
      lower_char_def char_of_def bit_0 same_ext_def)

text \<open>
  Claim C6. For every stem present in the index whose (non-empty) candidate list holds
  no file with the preferred extension, all candidates existing, the Resolver returns
  a candidate of maximal file size, the first of the list among those of that size, with
  \<open>was_fallback = True\<close>.
\<close>

theorem find_image_file_largest_fallback:
  assumes "idx (lower stem) = Some candidates"
    and "candidates \<noteq> []"
    and "\<forall>p \<in> set candidates. \<not> same_ext (path_suffix p) pref"
    and "\<forall>p \<in> set candidates. path_exists fsys p"
  shows "\<exists>i < length candidates.
           find_image_file idx fsys pref stem = Inr (Some (candidates ! i), Some True)
           \<and> (\<forall>j < length candidates. size_of fsys (candidates ! j) \<le> size_of fsys (candidates ! i))
           \<and> (\<forall>j < i. size_of fsys (candidates ! j) < size_of fsys (candidates ! i))"
proof -
  have "\<forall>p \<in> set candidates. lower (path_suffix p) \<noteq> pref"
    using assms(3) lower_eq_same_ext by blast
  then have none: "preferred_match pref candidates = None"
    by (simp add: preferred_match_None_iff)
  have "list_all (path_exists fsys) candidates"
    using assms(4) by (simp add: list_all_iff)
  then have r: "find_image_file idx fsys pref stem =
      Inr (Some (hd (rev (sort_key (size_of fsys) (rev candidates)))), Some True)"
    using assms(1,2) none by (intro find_image_file_fallback)
  obtain i where i: "i < length candidates"
      "hd (rev (sort_key (size_of fsys) (rev candidates))) = candidates ! i"
      "\<forall>j < length candidates. size_of fsys (candidates ! j) \<le> size_of fsys (candidates ! i)"
      "\<forall>j < i. size_of fsys (candidates ! j) < size_of fsys (candidates ! i)"
    using hd_sorted_reverse [OF assms(2), of "size_of fsys"] by blast
  show ?thesis
    using r i by (intro exI [of _ i]) simp
qed

theorem find_image_file_largest_fallback_witness:
  "find_image_file
     [''a'' \<mapsto> [Path True [''b'', ''a.png''], Path True [''b'', ''a.gif''],
                Path True [''b'', ''a.bmp'']]]
     [(Path True [''b'', ''a.png''], File 10), (Path True [''b'', ''a.gif''], File 30),
      (Path True [''b'', ''a.bmp''], File 30)]
     ''.jpg'' ''a''
   = Inr (Some (Path True [''b'', ''a.gif'']), Some True)"
  using find_image_file_largest_fallback [of
     "[''a'' \<mapsto> [Path True [''b'', ''a.png''], Path True [''b'', ''a.gif''],
                Path True [''b'', ''a.bmp'']]]" "''a''"
     "[Path True [''b'', ''a.png''], Path True [''b'', ''a.gif''], Path True [''b'', ''a.bmp'']]"
     "''.jpg''"
     "[(Path True [''b'', ''a.png''], File 10), (Path True [''b'', ''a.gif''], File 30),
      (Path True [''b'', ''a.bmp''], File 30)]"]
  by (simp add: find_image_file_def path_suffix_def path_name_def rfind_dot_def lower_def
      lower_char_def char_of_def bit_0 same_ext_def path_exists_def size_of_def
      sorted_by_size_reverse_def)

lemma setdefault_append_inv:
  assumes "\<And>k c. idx k = Some c \<Longrightarrow> c \<noteq> [] \<and> (\<forall>p \<in> set c. path_is_file fsys p)"
    and "path_is_file fsys file"
    and "setdefault_append idx stem file k = Some c"
  shows "c \<noteq> [] \<and> (\<forall>p \<in> set c. path_is_file fsys p)"
proof (cases "k = stem")
  case False
  then have "idx k = Some c"
    using assms(3) by (auto simp: setdefault_append_def split: option.splits)
  then show ?thesis by (rule assms(1))
next
  case True
  show ?thesis
  proof (cases "idx stem")
    case None
    then have "c = [file]"
      using assms(3) True by (simp add: setdefault_append_def)
    then show ?thesis using assms(2) by simp
  next
    case (Some files)
    then have "c = files @ [file]"
      using assms(3) True by (simp add: setdefault_append_def)
    moreover have "\<forall>p \<in> set files. path_is_file fsys p"
      using assms(1) [OF Some] by simp
    ultimately show ?thesis using assms(2) by simp
  qed
qed

lemma index_files_inv:
  "(\<And>k c. idx k = Some c \<Longrightarrow> c \<noteq> [] \<and> (\<forall>p \<in> set c. path_is_file fsys p)) \<Longrightarrow>
   index_files fsys idx qs k = Some c \<Longrightarrow>
     c \<noteq> [] \<and> (\<forall>p \<in> set c. path_is_file fsys p)"
proof (induction qs arbitrary: idx)
  case Nil
  then show ?case by simp
next
  case (Cons q qs)
  show ?case
  proof (cases "path_is_file fsys q")
    case True
    have "index_files fsys (setdefault_append idx (lower (path_stem q)) q) qs k = Some c"
      using Cons.prems(2) True by simp
    moreover have "\<And>k c. setdefault_append idx (lower (path_stem q)) q k = Some c \<Longrightarrow>
        c \<noteq> [] \<and> (\<forall>p \<in> set c. path_is_file fsys p)"
      using setdefault_append_inv [of idx fsys q] Cons.prems(1) True by blast
    ultimately show ?thesis
      using Cons.IH by blast
  next
    case False
    then have "index_files fsys idx qs k = Some c"
      using Cons.prems(2) by simp
    then show ?thesis
      using Cons.IH Cons.prems(1) by blast
  qed
qed

lemma find_image_file_present:
  assumes "idx (lower stem) = Some candidates"
    and "candidates \<noteq> []"
    and "\<forall>p \<in> set candidates. path_exists fsys p"
  shows "\<exists>p b. p \<in> set candidates \<and> find_image_file idx fsys pref stem = Inr (Some p, Some b)"
proof (cases "preferred_match pref candidates")
  case (Some p)
  then have "p \<in> set candidates"
    using preferred_match_Some [OF Some] by auto
  then show ?thesis
    using assms(1) Some by (auto simp: find_image_file_match)
next
  case None
  have "list_all (path_exists fsys) candidates"
    using assms(3) by (simp add: list_all_iff)
  then have r: "find_image_file idx fsys pref stem =
      Inr (Some (hd (rev (sort_key (size_of fsys) (rev candidates)))), Some True)"
    using assms(1,2) None by (intro find_image_file_fallback)
  obtain i where "i < length candidates"
      "hd (rev (sort_key (size_of fsys) (rev candidates))) = candidates ! i"
    using hd_sorted_reverse [OF assms(2), of "size_of fsys"] by blast
  then have "hd (rev (sort_key (size_of fsys) (rev candidates))) \<in> set candidates"
    by simp
  with r show ?thesis by blast
qed

text \<open>
  Claim C10. Every index produced by the Path Index Builder maps each of its keys to a
  non-empty list of regular files of the scanned file system; hence for every stem
  present in the index the Resolver returns a path of that list with a boolean flag, as
  long as the indexed files still exist: the final \<open>return None, None\<close> is never
  reached.
\<close>

theorem build_image_index_nonempty:
  assumes "build_image_index fsys base_text = Some idx"
  shows "(\<forall>stem candidates. idx stem = Some candidates \<longrightarrow>
            candidates \<noteq> [] \<and> (\<forall>p \<in> set candidates. path_is_file fsys p))
    \<and> (\<forall>stem candidates fsys'.
          idx (lower stem) = Some candidates
          \<and> (\<forall>p. path_is_file fsys p \<longrightarrow> path_exists fsys' p) \<longrightarrow>
          (\<exists>p b. p \<in> set candidates
                 \<and> find_image_file idx fsys' pref stem = Inr (Some p, Some b)))"
proof -
  have idx: "idx = index_files fsys Map.empty (rglob fsys (parse_path (strip base_text)))"
    using assms by (auto simp: build_image_index_def Let_def split: if_splits)
  have inv: "\<And>k c. idx k = Some c \<Longrightarrow> c \<noteq> [] \<and> (\<forall>p \<in> set c. path_is_file fsys p)"
    unfolding idx by (rule index_files_inv [of Map.empty]) simp_all
  have one: "\<forall>stem candidates. idx stem = Some candidates \<longrightarrow>
            candidates \<noteq> [] \<and> (\<forall>p \<in> set candidates. path_is_file fsys p)"
    using inv by blast
  have two: "\<forall>stem candidates fsys'.
          idx (lower stem) = Some candidates
          \<and> (\<forall>p. path_is_file fsys p \<longrightarrow> path_exists fsys' p) \<longrightarrow>
          (\<exists>p b. p \<in> set candidates
                 \<and> find_image_file idx fsys' pref stem = Inr (Some p, Some b))"
  proof (intro allI impI)
    fix stem candidates fsys'
    assume a: "idx (lower stem) = Some candidates
               \<and> (\<forall>p. path_is_file fsys p \<longrightarrow> path_exists fsys' p)"
    then have "candidates \<noteq> []" "\<forall>p \<in> set candidates. path_exists fsys' p"
      using inv by blast+
    then show "\<exists>p b. p \<in> set candidates
                 \<and> find_image_file idx fsys' pref stem = Inr (Some p, Some b)"
      using a find_image_file_present by blast
  qed
  show ?thesis
    using one two by (rule conjI)
qed

theorem build_image_index_nonempty_witness:
  "build_image_index
     [(Path True [''b''], Dir 0), (Path True [''b'', ''A.PNG''], File 7),
      (Path True [''b'', ''sub''], Dir 0), (Path True [''b'', ''sub'', ''a.gif''], File 9),
      (Path True [''c'', ''a.jpg''], File 1)] ''/b''
     = Some [''a'' \<mapsto> [Path True [''b'', ''A.PNG''], Path True [''b'', ''sub'', ''a.gif'']]]
   \<and> find_image_file
        [''a'' \<mapsto> [Path True [''b'', ''A.PNG''], Path True [''b'', ''sub'', ''a.gif'']]]
        [(Path True [''b''], Dir 0), (Path True [''b'', ''A.PNG''], File 7),
         (Path True [''b'', ''sub''], Dir 0), (Path True [''b'', ''sub'', ''a.gif''], File 9),
         (Path True [''c'', ''a.jpg''], File 1)] ''.jpg'' ''A''
       = Inr (Some (Path True [''b'', ''sub'', ''a.gif'']), Some True)"
  using build_image_index_nonempty [of
     "[(Path True [''b''], Dir 0), (Path True [''b'', ''A.PNG''], File 7),
      (Path True [''b'', ''sub''], Dir 0), (Path True [''b'', ''sub'', ''a.gif''], File 9),
      (Path True [''c'', ''a.jpg''], File 1)]" "''/b''"
     "[''a'' \<mapsto> [Path True [''b'', ''A.PNG''], Path True [''b'', ''sub'', ''a.gif'']]]"
     "''.jpg''"]
  by (simp add: build_image_index_def strip_def lstrip_def rstrip_def is_space_def
      parse_path_def components_def path_exists_def rglob_def is_below_def path_is_file_def
      setdefault_append_def path_stem_def path_suffix_def path_name_def rfind_dot_def
      lower_def lower_char_def char_of_def bit_0 find_image_file_def
      sorted_by_size_reverse_def size_of_def)

section \<open>Properties of the allocator\<close>

lemma split_sep_nonempty: "split_sep s \<noteq> []"
  by (induction s) (auto split: list.splits)

lemma split_sep_append:
  "CHR ''/'' \<notin> set a \<Longrightarrow> split_sep (a @ e) = (a @ hd (split_sep e)) # tl (split_sep e)"
proof (induction a)
  case Nil
  then show ?case using split_sep_nonempty [of e] by simp
next
  case (Cons c a)
  then show ?case by auto
qed

lemma components_append:
  assumes "CHR ''/'' \<notin> set a" and "CHR ''_'' \<in> set a"
  shows "components (a @ e) =
           (a @ hd (split_sep e)) # filter (\<lambda>c. c \<noteq> [] \<and> c \<noteq> ''.'') (tl (split_sep e))"
proof -
  have "a @ hd (split_sep e) \<noteq> []" using assms(2) by auto
  moreover have "a @ hd (split_sep e) \<noteq> ''.''"
  proof
    assume "a @ hd (split_sep e) = ''.''"
    then have "set (a @ hd (split_sep e)) = {CHR ''.''}" by simp
    with assms(2) show False by auto
  qed
  ultimately show ?thesis
    using assms(1) by (simp add: components_def split_sep_append)
qed

lemma joinpath_relative:
  assumes "CHR ''/'' \<notin> set a" and "CHR ''_'' \<in> set a"
  shows "joinpath d (a @ e) =
           Path (is_absolute d)
             (parts d @ (a @ hd (split_sep e))
                # filter (\<lambda>c. c \<noteq> [] \<and> c \<noteq> ''.'') (tl (split_sep e)))"
proof -
  have "a \<noteq> []" using assms(2) by auto
  then have "hd (a @ e) \<noteq> CHR ''/''"
    using assms(1) by (cases a) auto
  then show ?thesis
    using components_append [OF assms] by (simp add: joinpath_def parse_path_def)
qed

lemma joinpath_inj:
  assumes "CHR ''/'' \<notin> set a" "CHR ''_'' \<in> set a" "CHR ''/'' \<notin> set b" "CHR ''_'' \<in> set b"
    and "joinpath d (a @ e) = joinpath d (b @ e)"
  shows "a = b"
  using assms(5) unfolding joinpath_relative [OF assms(1,2)] joinpath_relative [OF assms(3,4)]
  by simp

lemma digit_char_inj: "a < 10 \<Longrightarrow> b < 10 \<Longrightarrow> digit_char a = digit_char b \<Longrightarrow> a = b"
proof -
  assume "a < 10" "b < 10" "digit_char a = digit_char b"
  moreover have "distinct ''0123456789''" by simp
  ultimately show "a = b"
    unfolding digit_char_def by (simp add: nth_eq_iff_index_eq)
qed

lemma digit_char_in: "d < 10 \<Longrightarrow> digit_char d \<in> set ''0123456789''"
  unfolding digit_char_def by (intro nth_mem) simp

lemma str_nat_digits: "set (str_nat n) \<subseteq> set ''0123456789''"
proof (induction n rule: str_nat.induct)
  case (1 n)
  show ?case
  proof (cases "n < 10")
    case True
    then show ?thesis
      using digit_char_in [of n] by (subst str_nat.simps) simp
  next
    case False
    have "n mod 10 < 10" by simp
    then have "digit_char (n mod 10) \<in> set ''0123456789''"
      by (rule digit_char_in)
    then show ?thesis
      using False 1 by (subst str_nat.simps) simp
  qed
qed

lemma str_nat_no_sep: "CHR ''/'' \<notin> set (str_nat n)"
  using str_nat_digits [of n] by auto

lemma str_nat_nonempty: "str_nat n \<noteq> []"
  by (subst str_nat.simps) simp

lemma str_nat_inj: "str_nat m = str_nat n \<Longrightarrow> m = n"
proof (induction m arbitrary: n rule: str_nat.induct)
  case (1 m)
  show ?case
  proof (cases "m < 10")
    case m: True
    show ?thesis
    proof (cases "n < 10")
      case True
      then show ?thesis
        using m "1.prems" digit_char_inj by (simp add: str_nat.simps [of m] str_nat.simps [of n])
    next
      case False
      then have "str_nat n = str_nat (n div 10) @ [digit_char (n mod 10)]"
        by (subst str_nat.simps) simp
      moreover have "str_nat m = [digit_char m]"
        using m by (subst str_nat.simps) simp
      ultimately show ?thesis
        using "1.prems" str_nat_nonempty [of "n div 10"] by simp
    qed
  next
    case m: False
    then have sm: "str_nat m = str_nat (m div 10) @ [digit_char (m mod 10)]"
      by (subst str_nat.simps) simp
    show ?thesis
    proof (cases "n < 10")
      case True
      then have "str_nat n = [digit_char n]"
        by (subst str_nat.simps) simp
      then show ?thesis
        using "1.prems" sm str_nat_nonempty [of "m div 10"] by simp
    next
      case False
      then have "str_nat n = str_nat (n div 10) @ [digit_char (n mod 10)]"
        by (subst str_nat.simps) simp
      with sm "1.prems" have e: "str_nat (m div 10) = str_nat (n div 10)"
        "digit_char (m mod 10) = digit_char (n mod 10)"
        by simp_all
      have "m div 10 = n div 10"
        using "1.IH" [OF m e(1)] .
      moreover have "m mod 10 = n mod 10"
        using e(2) by (intro digit_char_inj) simp_all
      ultimately show ?thesis
        by (metis div_mult_mod_eq)
    qed
  qed
qed

lemma path_exists_iff: "path_exists fsys p \<longleftrightarrow> p \<in> fst ` set fsys"
  by (simp add: path_exists_def map_of_eq_None_iff)

lemma candidate_inj:
  assumes "CHR ''/'' \<notin> set name"
    and "joinpath d (name @ ''_'' @ str_nat i @ ext) = joinpath d (name @ ''_'' @ str_nat j @ ext)"
  shows "i = j"
proof -
  have "name @ ''_'' @ str_nat i = name @ ''_'' @ str_nat j"
  proof (rule joinpath_inj [of _ _ d ext])
    show "CHR ''/'' \<notin> set (name @ ''_'' @ str_nat i)"
      using assms(1) str_nat_no_sep by simp
    show "CHR ''/'' \<notin> set (name @ ''_'' @ str_nat j)"
      using assms(1) str_nat_no_sep by simp
    show "CHR ''_'' \<in> set (name @ ''_'' @ str_nat i)" by simp
    show "CHR ''_'' \<in> set (name @ ''_'' @ str_nat j)" by simp
    show "joinpath d ((name @ ''_'' @ str_nat i) @ ext) = joinpath d ((name @ ''_'' @ str_nat j) @ ext)"
      using assms(2) by simp
  qed
  then show ?thesis
    using str_nat_inj by simp
qed

lemma exists_free:
  assumes "CHR ''/'' \<notin> set name"
  shows "\<exists>k \<ge> i. \<not> path_exists fsys (joinpath d (name @ ''_'' @ str_nat k @ ext))"
proof (rule ccontr)
  define c where "c = (\<lambda>k. joinpath d (name @ ''_'' @ str_nat k @ ext))"
  assume "\<not> (\<exists>k \<ge> i. \<not> path_exists fsys (joinpath d (name @ ''_'' @ str_nat k @ ext)))"
  then have "c ` {i..} \<subseteq> fst ` set fsys"
    by (auto simp: c_def path_exists_iff)
  then have "finite (c ` {i..})"
    by (rule finite_subset) simp
  moreover have "inj_on c {i..}"
    unfolding c_def inj_on_def using candidate_inj [OF assms] by blast
  ultimately have "finite {i..}"
    by (rule finite_imageD)
  then show False
    by (simp add: infinite_Ici)
qed

lemma next_free_path_first:
  assumes "i \<le> k"
    and "\<not> path_exists fsys (joinpath d (name @ ''_'' @ str_nat k @ ext))"
    and "\<forall>j. i \<le> j \<and> j < k \<longrightarrow> path_exists fsys (joinpath d (name @ ''_'' @ str_nat j @ ext))"
  shows "next_free_path fsys d name ext i = Some (joinpath d (name @ ''_'' @ str_nat k @ ext))"
  using assms
proof (induction "k - i" arbitrary: i)
  case 0
  then have "i = k" by simp
  with 0 show ?case
    by (subst next_free_path.simps) simp
next
  case (Suc n)
  then have lt: "i < k" by simp
  then have "path_exists fsys (joinpath d (name @ ''_'' @ str_nat i @ ext))"
    using Suc.prems(3) by simp
  then have "next_free_path fsys d name ext i = next_free_path fsys d name ext (i + 1)"
    by (subst next_free_path.simps) simp
  moreover have "next_free_path fsys d name ext (i + 1) =
      Some (joinpath d (name @ ''_'' @ str_nat k @ ext))"
  proof (rule Suc.hyps(1))
    show "n = k - (i + 1)" using Suc.hyps(2) by simp
    show "i + 1 \<le> k" using lt by simp
    show "\<not> path_exists fsys (joinpath d (name @ ''_'' @ str_nat k @ ext))"
      by (rule Suc.prems(2))
    show "\<forall>j. i + 1 \<le> j \<and> j < k \<longrightarrow>
        path_exists fsys (joinpath d (name @ ''_'' @ str_nat j @ ext))"
      using Suc.prems(3) by simp
  qed
  ultimately show ?case by simp
qed

lemma least_free:
  assumes "CHR ''/'' \<notin> set name"
  shows "\<exists>k \<ge> i. \<not> path_exists fsys (joinpath d (name @ ''_'' @ str_nat k @ ext))
           \<and> (\<forall>j. i \<le> j \<and> j < k \<longrightarrow> path_exists fsys (joinpath d (name @ ''_'' @ str_nat j @ ext)))"
proof -
  define P where "P = (\<lambda>k. i \<le> k \<and> \<not> path_exists fsys (joinpath d (name @ ''_'' @ str_nat k @ ext)))"
  have "\<exists>k. P k"
    using exists_free [OF assms, of i fsys d ext] by (auto simp: P_def)
  then have "P (LEAST k. P k)" "\<And>j. j < (LEAST k. P k) \<Longrightarrow> \<not> P j"
    by (auto intro: LeastI dest: not_less_Least)
  then show ?thesis
    unfolding P_def by blast
qed

lemma sanitize_no_sep: "CHR ''/'' \<notin> set (sanitize_filename s)"
  using sanitize_no_forbidden [of s] by (auto simp: forbidden_def)

lemma resolve_output_path_first:
  assumes "\<not> path_exists fsys (candidate_path d (sanitize_filename b) ext k)"
    and "\<forall>j < k. path_exists fsys (candidate_path d (sanitize_filename b) ext j)"
  shows "resolve_output_path fsys d b ext = Some (candidate_path d (sanitize_filename b) ext k)"
proof (cases "k = 0")
  case True
  then show ?thesis
    using assms(1) by (simp add: resolve_output_path_def candidate_path_def)
next
  case False
  then have "path_exists fsys (joinpath d (sanitize_filename b @ ext))"
    using assms(2) by (auto simp: candidate_path_def)
  then have "resolve_output_path fsys d b ext = next_free_path fsys d (sanitize_filename b) ext 1"
    by (simp add: resolve_output_path_def)
  moreover have "next_free_path fsys d (sanitize_filename b) ext 1 =
      Some (joinpath d (sanitize_filename b @ ''_'' @ str_nat k @ ext))"
  proof (rule next_free_path_first)
    show "1 \<le> k" using False by simp
    show "\<not> path_exists fsys (joinpath d (sanitize_filename b @ ''_'' @ str_nat k @ ext))"
      using assms(1) False by (simp add: candidate_path_def)
    show "\<forall>j. 1 \<le> j \<and> j < k \<longrightarrow>
        path_exists fsys (joinpath d (sanitize_filename b @ ''_'' @ str_nat j @ ext))"
      using assms(2) by (auto simp: candidate_path_def)
  qed
  ultimately show ?thesis
    using False by (simp add: candidate_path_def)
qed

lemma first_free_candidate:
  "\<exists>k. \<not> path_exists fsys (candidate_path d (sanitize_filename b) ext k)
       \<and> (\<forall>j < k. path_exists fsys (candidate_path d (sanitize_filename b) ext j))"
proof (cases "path_exists fsys (candidate_path d (sanitize_filename b) ext 0)")
  case False
  then show ?thesis by (intro exI [of _ 0]) simp
next
  case True
  obtain k where k: "1 \<le> k"
      "\<not> path_exists fsys (joinpath d (sanitize_filename b @ ''_'' @ str_nat k @ ext))"
      "\<forall>j. 1 \<le> j \<and> j < k \<longrightarrow>
         path_exists fsys (joinpath d (sanitize_filename b @ ''_'' @ str_nat j @ ext))"
    using least_free [OF sanitize_no_sep, of 1 fsys d b ext] by blast
  have "\<forall>j < k. path_exists fsys (candidate_path d (sanitize_filename b) ext j)"
  proof (intro allI impI)
    fix j assume "j < k"
    show "path_exists fsys (candidate_path d (sanitize_filename b) ext j)"
    proof (cases "j = 0")
      case True
      with \<open>path_exists fsys (candidate_path d (sanitize_filename b) ext 0)\<close> show ?thesis by simp
    next
      case False
      then show ?thesis
        using k(3) \<open>j < k\<close> by (simp add: candidate_path_def)
    qed
  qed
  moreover have "\<not> path_exists fsys (candidate_path d (sanitize_filename b) ext k)"
    using k(1,2) by (simp add: candidate_path_def)
  ultimately show ?thesis by blast
qed

lemma resolve_output_path_total:
  "\<exists>k. resolve_output_path fsys d b ext = Some (candidate_path d (sanitize_filename b) ext k)
       \<and> \<not> path_exists fsys (candidate_path d (sanitize_filename b) ext k)
       \<and> (\<forall>j < k. path_exists fsys (candidate_path d (sanitize_filename b) ext j))"
  using first_free_candidate [of fsys d b ext] resolve_output_path_first [of fsys d b ext]
  by blast

lemma candidate_0_distinct:
  assumes "CHR ''/'' \<notin> set name"
  shows "joinpath d (name @ ext) \<noteq> joinpath d (name @ ''_'' @ str_nat k @ ext)"
proof
  define h where "h = hd (split_sep ext)"
  define t where "t = filter (\<lambda>c. c \<noteq> [] \<and> c \<noteq> ''.'') (tl (split_sep ext))"
  define m where "m = (\<lambda>p. sum_list (map length (parts p)))"
  assume eq: "joinpath d (name @ ext) = joinpath d (name @ ''_'' @ str_nat k @ ext)"
  have "joinpath d ((name @ ''_'' @ str_nat k) @ ext) =
      Path (is_absolute d) (parts d @ ((name @ ''_'' @ str_nat k) @ h) # t)"
    unfolding h_def t_def
    using assms str_nat_no_sep by (intro joinpath_relative) simp_all
  then have r: "m (joinpath d (name @ ''_'' @ str_nat k @ ext)) =
      m d + length name + 1 + length (str_nat k) + length h + sum_list (map length t)"
    by (simp add: m_def)
  have "components (name @ ext) = filter (\<lambda>c. c \<noteq> [] \<and> c \<noteq> ''.'') ((name @ h) # tl (split_sep ext))"
    using assms by (simp add: components_def split_sep_append h_def)
  then have "sum_list (map length (components (name @ ext))) \<le>
      length name + length h + sum_list (map length t)"
    by (simp add: t_def)
  then have "m (joinpath d (name @ ext)) \<le> m d + length name + length h + sum_list (map length t)"
    by (simp add: m_def joinpath_def parse_path_def Let_def)
  with r eq show False by simp
qed

lemma write_file_exists:
  assumes "write_file fsys p n = Inr fsys'"
  shows "path_exists fsys' q \<longleftrightarrow> path_exists fsys q \<or> q = p"
proof (cases "map_of fsys p")
  case None
  then have "fsys' = fsys @ [(p, File n)]"
    using assms by (simp add: write_file_def)
  then show ?thesis
    by (auto simp: path_exists_iff)
next
  case (Some e)
  then have ex: "path_exists fsys p"
    by (simp add: path_exists_def)
  from Some assms have "fsys' = map (\<lambda>(q, e). if q = p then (q, File n) else (q, e)) fsys"
    by (cases e) (simp_all add: write_file_def)
  then have "fst ` set fsys' = fst ` set fsys"
    by (force simp: image_iff split: if_splits)
  then show ?thesis
    using ex by (auto simp: path_exists_iff)
qed

text \<open>
  Claim C7. For every output directory, base name and extension the allocator returns:
  its result is the first free path of the sequence \<open>name.ext\<close>, \<open>name_1.ext\<close>,
  \<open>name_2.ext\<close>, ... (with \<open>name\<close> the sanitized base name), so it does not exist
  at call time; the result depends on the file system only through which paths exist, so a
  second call with nothing created in between returns the same path; and once
  \<open>name.ext\<close> has been written, the call returns the first free one among
  \<open>name_1.ext\<close>, \<open>name_2.ext\<close>, ..., which is \<open>name_1.ext\<close> when that is free.
\<close>

theorem resolve_output_path_spec:
  "(\<exists>k. resolve_output_path fsys d b ext = Some (candidate_path d (sanitize_filename b) ext k)
        \<and> \<not> path_exists fsys (candidate_path d (sanitize_filename b) ext k)
        \<and> (\<forall>j < k. path_exists fsys (candidate_path d (sanitize_filename b) ext j)))
   \<and> (\<forall>fsys'. (\<forall>q. path_exists fsys' q = path_exists fsys q) \<longrightarrow>
         resolve_output_path fsys' d b ext = resolve_output_path fsys d b ext)
   \<and> (\<forall>n fsys'. write_file fsys (candidate_path d (sanitize_filename b) ext 0) n = Inr fsys' \<longrightarrow>
         (\<exists>k \<ge> 1. resolve_output_path fsys' d b ext
                     = Some (candidate_path d (sanitize_filename b) ext k)
                  \<and> \<not> path_exists fsys (candidate_path d (sanitize_filename b) ext k)
                  \<and> (\<forall>j. 1 \<le> j \<and> j < k \<longrightarrow>
                        path_exists fsys (candidate_path d (sanitize_filename b) ext j)))
         \<and> (\<not> path_exists fsys (candidate_path d (sanitize_filename b) ext 1) \<longrightarrow>
              resolve_output_path fsys' d b ext
                = Some (candidate_path d (sanitize_filename b) ext 1)))"
proof -
  define C where "C = candidate_path d (sanitize_filename b) ext"
  have distinct0: "\<And>j. 1 \<le> j \<Longrightarrow> C j \<noteq> C 0"
    unfolding C_def candidate_path_def
    using candidate_0_distinct [OF sanitize_no_sep, of d b ext] by (auto simp: eq_commute)
  have one: "\<exists>k. resolve_output_path fsys d b ext = Some (C k)
        \<and> \<not> path_exists fsys (C k) \<and> (\<forall>j < k. path_exists fsys (C j))"
    unfolding C_def by (rule resolve_output_path_total)
  have two: "\<forall>fsys'. (\<forall>q. path_exists fsys' q = path_exists fsys q) \<longrightarrow>
         resolve_output_path fsys' d b ext = resolve_output_path fsys d b ext"
  proof (intro allI impI)
    fix fsys'
    assume same: "\<forall>q. path_exists fsys' q = path_exists fsys q"
    obtain k where k: "resolve_output_path fsys d b ext = Some (C k)"
        "\<not> path_exists fsys (C k)" "\<forall>j < k. path_exists fsys (C j)"
      using one by blast
    have "resolve_output_path fsys' d b ext = Some (C k)"
      unfolding C_def
      using k(2,3) same by (intro resolve_output_path_first) (simp_all add: C_def)
    with k(1) show "resolve_output_path fsys' d b ext = resolve_output_path fsys d b ext"
      by simp
  qed
  have three: "\<forall>n fsys'. write_file fsys (C 0) n = Inr fsys' \<longrightarrow>
         (\<exists>k \<ge> 1. resolve_output_path fsys' d b ext = Some (C k)
                  \<and> \<not> path_exists fsys (C k)
                  \<and> (\<forall>j. 1 \<le> j \<and> j < k \<longrightarrow> path_exists fsys (C j)))
         \<and> (\<not> path_exists fsys (C 1) \<longrightarrow> resolve_output_path fsys' d b ext = Some (C 1))"
  proof (intro allI impI)
    fix n fsys'
    assume w: "write_file fsys (C 0) n = Inr fsys'"
    have ex: "\<And>q. path_exists fsys' q \<longleftrightarrow> path_exists fsys q \<or> q = C 0"
      using write_file_exists [OF w] .
    obtain k where k: "resolve_output_path fsys' d b ext = Some (C k)"
        "\<not> path_exists fsys' (C k)" "\<forall>j < k. path_exists fsys' (C j)"
      using resolve_output_path_total [of fsys' d b ext] unfolding C_def by blast
    have k1: "1 \<le> k"
    proof (rule ccontr)
      assume "\<not> 1 \<le> k"
      then have "k = 0" by simp
      with k(2) ex show False by simp
    qed
    have free: "\<not> path_exists fsys (C k)"
      using k(2) ex by simp
    have occ: "\<forall>j. 1 \<le> j \<and> j < k \<longrightarrow> path_exists fsys (C j)"
      using k(3) ex distinct0 by blast
    have "\<not> path_exists fsys (C 1) \<longrightarrow> k = 1"
      using occ k1 by (metis le_neq_implies_less order_refl)
    with k(1) k1 free occ
    show "(\<exists>k \<ge> 1. resolve_output_path fsys' d b ext = Some (C k)
                  \<and> \<not> path_exists fsys (C k)
                  \<and> (\<forall>j. 1 \<le> j \<and> j < k \<longrightarrow> path_exists fsys (C j)))
         \<and> (\<not> path_exists fsys (C 1) \<longrightarrow> resolve_output_path fsys' d b ext = Some (C 1))"
      by blast
  qed
  show ?thesis
    using one two three unfolding C_def by (intro conjI)
qed

theorem resolve_output_path_spec_witness:
  "write_file [(Path False [''out''], Dir 0)] (Path False [''out'', ''widget.jpg'']) 5
     = Inr [(Path False [''out''], Dir 0), (Path False [''out'', ''widget.jpg''], File 5)]
   \<and> \<not> path_exists [(Path False [''out''], Dir 0)] (Path False [''out'', ''widget_1.jpg''])
   \<and> resolve_output_path
       [(Path False [''out''], Dir 0), (Path False [''out'', ''widget.jpg''], File 5)]
       (Path False [''out'']) ''widget'' ''.jpg''
     = Some (Path False [''out'', ''widget_1.jpg''])"
proof -
  have s: "sanitize_filename ''widget'' = ''widget''"
    by (simp add: sanitize_filename_def re_sub_forbidden_def forbidden_def strip_def lstrip_def
        rstrip_def is_space_def)
  have c0: "candidate_path (Path False [''out'']) (sanitize_filename ''widget'') ''.jpg'' 0
      = Path False [''out'', ''widget.jpg'']"
    unfolding s by (simp add: candidate_path_def joinpath_def parse_path_def components_def)
  have c1: "candidate_path (Path False [''out'']) (sanitize_filename ''widget'') ''.jpg'' 1
      = Path False [''out'', ''widget_1.jpg'']"
    unfolding s
    by (simp add: candidate_path_def joinpath_def parse_path_def components_def str_nat.simps
        digit_char_def)
  have w: "write_file [(Path False [''out''], Dir 0)] (Path False [''out'', ''widget.jpg'']) 5
     = Inr [(Path False [''out''], Dir 0), (Path False [''out'', ''widget.jpg''], File 5)]"
    by (simp add: write_file_def)
  have f: "\<not> path_exists [(Path False [''out''], Dir 0)] (Path False [''out'', ''widget_1.jpg''])"
    by (simp add: path_exists_def)
  have "resolve_output_path
       [(Path False [''out''], Dir 0), (Path False [''out'', ''widget.jpg''], File 5)]
       (Path False [''out'']) ''widget'' ''.jpg''
     = Some (Path False [''out'', ''widget_1.jpg''])"
    using resolve_output_path_spec [of "[(Path False [''out''], Dir 0)]" "Path False [''out'']"
      "''widget''" "''.jpg''"] w f
    unfolding c0 c1 by blast
  with w f show ?thesis by simp
qed

text \<open>
  The helper \<open>get_safe_dest_path\<close> returns as well, for a destination whose name
  holds no separator, and what it returns does not exist.
\<close>

lemma path_stem_subset: "set (path_stem p) \<subseteq> set (path_name p)"
  by (auto simp: path_stem_def Let_def split: option.splits dest: in_set_takeD)

lemma get_safe_dest_path_free:
  assumes "CHR ''/'' \<notin> set (path_name p)"
  shows "\<exists>q. get_safe_dest_path fsys p = Some q \<and> \<not> path_exists fsys q"
proof (cases "path_exists fsys p")
  case False
  then show ?thesis by (simp add: get_safe_dest_path_def)
next
  case True
  have ns: "CHR ''/'' \<notin> set (path_stem p)"
    using assms path_stem_subset by blast
  obtain k where k: "1 \<le> k"
      "\<not> path_exists fsys (joinpath (path_parent p) (path_stem p @ ''_'' @ str_nat k @ path_suffix p))"
      "\<forall>j. 1 \<le> j \<and> j < k \<longrightarrow>
         path_exists fsys (joinpath (path_parent p) (path_stem p @ ''_'' @ str_nat j @ path_suffix p))"
    using least_free [OF ns, of 1 fsys "path_parent p" "path_suffix p"] by blast
  have "next_free_path fsys (path_parent p) (path_stem p) (path_suffix p) 1 =
      Some (joinpath (path_parent p) (path_stem p @ ''_'' @ str_nat k @ path_suffix p))"
    using k by (intro next_free_path_first) simp_all
  then show ?thesis
    using True k(2) by (simp add: get_safe_dest_path_def)
qed

lemma get_safe_dest_path_example:
  "get_safe_dest_path
     [(Path False [''out'', ''widget.jpg''], File 5)] (Path False [''out'', ''widget.jpg''])
   = Some (Path False [''out'', ''widget_1.jpg''])"
  by (simp add: get_safe_dest_path_def path_exists_def path_parent_def path_stem_def
      path_suffix_def path_name_def rfind_dot_def next_free_path.simps joinpath_def
      parse_path_def components_def str_nat.simps digit_char_def)

section \<open>Properties of the update check\<close>

text \<open>
  Claim C4. Whenever \<open>check_for_updates\<close> returns \<open>None\<close> (no newer version, or
  any failure of the request, which it turns into \<open>None\<close>), the constructor reads the
  local variable \<open>reply\<close> without it having been assigned, and ends with an
  \<open>UnboundLocalError\<close>.
\<close>

theorem init_unbound_reply:
  "(check_for_updates r = None \<longrightarrow> ImageTool_init r answer = Inl UnboundLocalError)
   \<and> check_for_updates RequestFailed = None
   \<and> ImageTool_init RequestFailed answer = Inl UnboundLocalError"
  by (simp add: ImageTool_init_def check_for_updates_def truthy_def)

theorem init_unbound_reply_witness:
  "check_for_updates (ResponseText (''1.0.0'' @ [CHR 0x0A])) = None
   \<and> ImageTool_init (ResponseText (''1.0.0'' @ [CHR 0x0A])) Yes = Inl UnboundLocalError"
  using init_unbound_reply [of "ResponseText (''1.0.0'' @ [CHR 0x0A])" Yes]
  by (simp add: check_for_updates_def APP_VERSION_def strip_def lstrip_def rstrip_def
      is_space_def)

section \<open>Properties of the batch run engine\<close>

lemma write_file_new:
  "\<not> path_exists fsys p \<Longrightarrow> write_file fsys p n = Inr (fsys @ [(p, File n)])"
  by (simp add: write_file_def path_exists_def)

lemma copy2_new:
  "\<not> path_exists fsys dst \<Longrightarrow> copy2 fsys src dst = Inr fs' \<Longrightarrow> fs' \<noteq> fsys"
  by (auto simp: copy2_def write_file_new split: option.splits entry.splits)

lemma convert_image_new:
  "\<not> path_exists fsys dst \<Longrightarrow> convert_image c fsys src dst = Inr fs' \<Longrightarrow> fs' \<noteq> fsys"
  by (auto simp: convert_image_def write_file_new split: option.splits entry.splits)

lemma copy_preferred_tally:
  assumes "\<not> path_exists (fs st) dest"
    and "copy_preferred self st src dest = Inr f"
  shows "tally_rule self st (state_of f)"
proof -
  obtain fs' where c: "copy2 (fs st) src dest = Inr fs'"
    and f: "f = Next (count_copied self ((emit (Log_copy_preferred src dest) st)\<lparr>fs := fs'\<rparr>))"
    using assms(2) by (auto simp: copy_preferred_def emit_def Let_def split: sum.splits)
  have "fs' \<noteq> fs st"
    using copy2_new [OF assms(1) c] .
  then show ?thesis
    unfolding f by (simp add: tally_rule_def state_of_def count_copied_def emit_def tallies_def)
qed

lemma ask_conversion_Inl:
  "ask_conversion self st = Inl f \<Longrightarrow> fs (state_of f) = fs st \<and> tallies (state_of f) = tallies st"
  by (auto simp: ask_conversion_def Let_def emit_def state_of_def tallies_def split: if_splits)

lemma ask_conversion_Inr:
  "ask_conversion self st = Inr st1 \<Longrightarrow> fs st1 = fs st \<and> tallies st1 = tallies st"
  by (auto simp: ask_conversion_def Let_def emit_def tallies_def split: if_splits)

lemma handle_fallback_tally:
  assumes "\<not> path_exists (fs st) dest"
    and "handle_fallback self st r filename src dest = Inr f"
  shows "tally_rule self st (state_of f)"
proof (cases "ask_conversion self (emit (Log_fallback_found src) st)")
  case (Inl g)
  then have "f = g"
    using assms(2) by (simp add: handle_fallback_def)
  then show ?thesis
    using ask_conversion_Inl [OF Inl] by (simp add: tally_rule_def emit_def tallies_def)
next
  case (Inr st1)
  then have s1: "fs st1 = fs st" "tallies st1 = tallies st"
    using ask_conversion_Inr [OF Inr] by (simp_all add: emit_def tallies_def)
  consider (convert) "fallback_mode self = ''convert''"
    | (copy) "fallback_mode self \<noteq> ''convert''" "fallback_mode self = ''copy''"
    | (none) "fallback_mode self \<noteq> ''convert''" "fallback_mode self \<noteq> ''copy''"
    by blast
  then show ?thesis
  proof cases
    case convert
    then obtain fs' where c: "convert_image (codec self) (fs st1) src dest = Inr fs'"
      and f: "f = Next (count_converted self
                  ((emit (Log_convert_fallback src dest) st1)\<lparr>fs := fs'\<rparr>))"
      using assms(2) Inr
      by (auto simp: handle_fallback_def emit_def Let_def split: sum.splits)
    have "fs' \<noteq> fs st"
      using convert_image_new [OF _ c] assms(1) s1(1) by simp
    then show ?thesis
      unfolding f using s1
      by (simp add: tally_rule_def state_of_def count_converted_def emit_def tallies_def)
  next
    case copy
    then obtain fs' where c: "copy2 (fs st1) src dest = Inr fs'"
      and f: "f = Next (count_copied self ((emit (Log_copy_fallback src dest) st1)\<lparr>fs := fs'\<rparr>))"
      using assms(2) Inr
      by (auto simp: handle_fallback_def emit_def Let_def split: sum.splits)
    have "fs' \<noteq> fs st"
      using copy2_new [OF _ c] assms(1) s1(1) by simp
    then show ?thesis
      unfolding f using s1
      by (simp add: tally_rule_def state_of_def count_copied_def emit_def tallies_def)
  next
    case none
    then have "f = Next (mark_not_found r filename st1)"
      using assms(2) Inr by (simp add: handle_fallback_def)
    then show ?thesis
      using s1 by (simp add: tally_rule_def state_of_def mark_not_found_def emit_def tallies_def)
  qed
qed

lemma resolve_output_path_Some_free:
  "resolve_output_path fsys d b ext = Some p \<Longrightarrow> \<not> path_exists fsys p"
  using resolve_output_path_total [of fsys d b ext] by auto

text \<open>
  Claim C1, as amended. For every row the loop body processes without raising: if it
  writes no file the four counters stay as they are; if it writes a file (copied or
  converted) exactly one counter grows by one, a "renamed" counter when a rename column
  is selected for the run and an "original" counter otherwise. The row's own rename cell
  does not enter.
\<close>

theorem tally_follows_rename_enabled:
  assumes "process_row self idx st r = Inr f"
  shows "tally_rule self st (state_of f)"
proof -
  obtain raw_path where g: "getitem r (image_col self) = Inr raw_path"
    using assms by (auto simp: process_row_def split: sum.splits)
  show ?thesis
  proof (cases "isna raw_path")
    case True
    then have "f = Next ((emit Log_empty_path st)\<lparr>not_found_rows := not_found_rows st @ [r]\<rparr>)"
      using assms g by (simp add: process_row_def)
    then show ?thesis
      by (simp add: tally_rule_def state_of_def emit_def tallies_def)
  next
    case False
    define filename where "filename = path_name (parse_path (str_cell raw_path))"
    define original_stem where "original_stem = lower (path_stem (parse_path filename))"
    obtain output_stem where o: "output_stem_of self r original_stem = Inr output_stem"
      using assms g False
      by (auto simp: process_row_def Let_def filename_def original_stem_def split: sum.splits)
    obtain src_path was_fallback where
      fi: "find_image_file idx (fs st) (preferred_ext self) original_stem
             = Inr (src_path, was_fallback)"
      using assms g False o
      by (auto simp: process_row_def Let_def filename_def original_stem_def split: sum.splits)
    show ?thesis
    proof (cases src_path)
      case None
      then have "f = Next (mark_not_found r filename st)"
        using assms g False o fi
        by (simp add: process_row_def Let_def filename_def original_stem_def)
      then show ?thesis
        by (simp add: tally_rule_def state_of_def mark_not_found_def emit_def tallies_def)
    next
      case (Some src)
      obtain dest where d: "resolve_output_path (fs st) (out_dir self) output_stem
                              (preferred_ext self) = Some dest"
        using resolve_output_path_total [of "fs st" "out_dir self" output_stem "preferred_ext self"]
        by blast
      have free: "\<not> path_exists (fs st) dest"
        using d by (rule resolve_output_path_Some_free)
      have "(was_fallback \<noteq> Some True \<and> copy_preferred self st src dest = Inr f)
            \<or> (was_fallback = Some True \<and> handle_fallback self st r filename src dest = Inr f)"
        using assms g False o fi Some d
        by (auto simp: process_row_def Let_def filename_def original_stem_def split: if_splits)
      then show ?thesis
        using copy_preferred_tally [OF free] handle_fallback_tally [OF free] by blast
    qed
  qed
qed

text \<open>The definitions a concrete step of the engine is evaluated with.\<close>

lemmas eval_defs = process_row_def getitem_def isna_def str_cell_def parse_path_def
  components_def path_name_def path_stem_def path_suffix_def rfind_dot_def lower_def
  lower_char_def char_of_def bit_0 output_stem_of_def rename_enabled_def strip_def lstrip_def
  rstrip_def is_space_def find_image_file_def resolve_output_path_def out_dir_def
  sanitize_filename_def re_sub_forbidden_def forbidden_def joinpath_def path_exists_def
  copy_preferred_def emit_def copy2_def write_file_def count_copied_def initial_state_def
  handle_fallback_def ask_conversion_def mark_not_found_def sorted_by_size_reverse_def
  size_of_def convert_image_def count_converted_def Let_def

text \<open>
  A rename column is selected, the row's rename cell is empty: the file is copied under
  its original name and counted under \<open>copied_renamed\<close>.
\<close>

lemma step_blank_rename:
  "process_row
     \<lparr>df = None, image_col = ''Img'', newname_col = ''New'', vendor_col = [],
      vendor_value = ''All Vendors'', base_edit = ''/b'', out_edit = ''/out'',
      preferred_ext = ''.jpg'', fallback_mode = ''convert'',
      preview_toggle = ''Do not show preview'', dialog_results = (\<lambda>n. None),
      codec = (\<lambda>s d. None), xlsx_size = (\<lambda>rs. 0)\<rparr>
     [''a'' \<mapsto> [Path True [''b'', ''a.jpg'']]]
     (initial_state [(Path True [''b'', ''a.jpg''], File 3)])
     [(''Img'', Value ''a.jpg''), (''New'', NaN)]
   = Inr (Next
       \<lparr>copied_original = 0, copied_renamed = 1, converted_original = 0,
        converted_renamed = 0, not_found_rows = [], convert_all_mode = False,
        dialogs_shown = 0,
        fs = [(Path True [''b'', ''a.jpg''], File 3), (Path True [''out'', ''a.jpg''], File 3)],
        trace = [Log_copy_preferred (Path True [''b'', ''a.jpg'']) (Path True [''out'', ''a.jpg''])],
        report = None\<rparr>)"
  by (simp add: eval_defs)

theorem blank_rename_counts_as_renamed:
  "process_row
     \<lparr>df = None, image_col = ''Img'', newname_col = ''New'', vendor_col = [],
      vendor_value = ''All Vendors'', base_edit = ''/b'', out_edit = ''/out'',
      preferred_ext = ''.jpg'', fallback_mode = ''convert'',
      preview_toggle = ''Do not show preview'', dialog_results = (\<lambda>n. None),
      codec = (\<lambda>s d. None), xlsx_size = (\<lambda>rs. 0)\<rparr>
     [''a'' \<mapsto> [Path True [''b'', ''a.jpg'']]]
     (initial_state [(Path True [''b'', ''a.jpg''], File 3)])
     [(''Img'', Value ''a.jpg''), (''New'', NaN)]
   = Inr (Next
       \<lparr>copied_original = 0, copied_renamed = 1, converted_original = 0,
        converted_renamed = 0, not_found_rows = [], convert_all_mode = False,
        dialogs_shown = 0,
        fs = [(Path True [''b'', ''a.jpg''], File 3), (Path True [''out'', ''a.jpg''], File 3)],
        trace = [Log_copy_preferred (Path True [''b'', ''a.jpg'']) (Path True [''out'', ''a.jpg''])],
        report = None\<rparr>)"
  by (rule step_blank_rename)

theorem tally_follows_rename_enabled_witness:
  "tally_rule
     \<lparr>df = None, image_col = ''Img'', newname_col = ''New'', vendor_col = [],
      vendor_value = ''All Vendors'', base_edit = ''/b'', out_edit = ''/out'',
      preferred_ext = ''.jpg'', fallback_mode = ''convert'',
      preview_toggle = ''Do not show preview'', dialog_results = (\<lambda>n. None),
      codec = (\<lambda>s d. None), xlsx_size = (\<lambda>rs. 0)\<rparr>
     (initial_state [(Path True [''b'', ''a.jpg''], File 3)])
     \<lparr>copied_original = 0, copied_renamed = 1, converted_original = 0,
      converted_renamed = 0, not_found_rows = [], convert_all_mode = False,
      dialogs_shown = 0,
      fs = [(Path True [''b'', ''a.jpg''], File 3), (Path True [''out'', ''a.jpg''], File 3)],
      trace = [Log_copy_preferred (Path True [''b'', ''a.jpg'']) (Path True [''out'', ''a.jpg''])],
      report = None\<rparr>"
  using tally_follows_rename_enabled [OF step_blank_rename]
  by (simp add: state_of_def)

text \<open>
  Claim C2, as amended. For every row whose image-path cell is missing (\<open>pd.isna\<close>
  holds), the loop body records the row as not found and goes on to the next row: the
  result does not depend on the index (the Resolver is not consulted), the file system
  and the counters stay as they are.
\<close>

theorem missing_path_marks_not_found:
  assumes "map_of r (image_col self) = Some NaN"
  shows "process_row self idx st r =
           Inr (Next (st\<lparr>trace := trace st @ [Log_empty_path],
                         not_found_rows := not_found_rows st @ [r]\<rparr>))"
  using assms by (simp add: process_row_def getitem_def isna_def emit_def)

theorem missing_path_marks_not_found_witness:
  "process_row
     \<lparr>df = None, image_col = ''Img'', newname_col = [], vendor_col = [],
      vendor_value = ''All Vendors'', base_edit = ''/b'', out_edit = ''/out'',
      preferred_ext = ''.jpg'', fallback_mode = ''convert'',
      preview_toggle = ''Do not show preview'', dialog_results = (\<lambda>n. None),
      codec = (\<lambda>s d. None), xlsx_size = (\<lambda>rs. 0)\<rparr>
     [''a'' \<mapsto> [Path True [''b'', ''a.jpg'']]]
     (initial_state [(Path True [''b'', ''a.jpg''], File 3)])
     [(''Img'', NaN)]
   = Inr (Next
       \<lparr>copied_original = 0, copied_renamed = 0, converted_original = 0,
        converted_renamed = 0, not_found_rows = [[(''Img'', NaN)]], convert_all_mode = False,
        dialogs_shown = 0, fs = [(Path True [''b'', ''a.jpg''], File 3)],
        trace = [Log_empty_path], report = None\<rparr>)"
  using missing_path_marks_not_found [of "[(''Img'', NaN)]"
     "\<lparr>df = None, image_col = ''Img'', newname_col = [], vendor_col = [],
      vendor_value = ''All Vendors'', base_edit = ''/b'', out_edit = ''/out'',
      preferred_ext = ''.jpg'', fallback_mode = ''convert'',
      preview_toggle = ''Do not show preview'', dialog_results = (\<lambda>n. None),
      codec = (\<lambda>s d. None), xlsx_size = (\<lambda>rs. 0)\<rparr>"
     "[''a'' \<mapsto> [Path True [''b'', ''a.jpg'']]]"
     "initial_state [(Path True [''b'', ''a.jpg''], File 3)]"]
  by (simp add: initial_state_def)

text \<open>
  A present but whitespace-only image path is not caught by that check: it is handed to
  the Resolver, and where a file of that stem exists it is copied and the row is not
  recorded as not found.
\<close>

theorem whitespace_path_is_resolved_and_copied:
  "process_row
     \<lparr>df = None, image_col = ''Img'', newname_col = [], vendor_col = [],
      vendor_value = ''All Vendors'', base_edit = ''/b'', out_edit = ''/out'',
      preferred_ext = ''.jpg'', fallback_mode = ''convert'',
      preview_toggle = ''Do not show preview'', dialog_results = (\<lambda>n. None),
      codec = (\<lambda>s d. None), xlsx_size = (\<lambda>rs. 0)\<rparr>
     [''  '' \<mapsto> [Path True [''b'', ''  .jpg'']]]
     (initial_state [(Path True [''b'', ''  .jpg''], File 3)])
     [(''Img'', Value ''  '')]
   = Inr (Next
       \<lparr>copied_original = 1, copied_renamed = 0, converted_original = 0,
        converted_renamed = 0, not_found_rows = [], convert_all_mode = False,
        dialogs_shown = 0,
        fs = [(Path True [''b'', ''  .jpg''], File 3), (Path True [''out'', ''.jpg''], File 3)],
        trace = [Log_copy_preferred (Path True [''b'', ''  .jpg'']) (Path True [''out'', ''.jpg''])],
        report = None\<rparr>)"
  by (simp add: eval_defs)

text \<open>
  Claim C9. For every row that resolves only to a fallback file while the fallback policy
  is \<open>none\<close>, the loop body records the row as not found and changes nothing else but
  the log: no file is written and the four counters stay as they are.
\<close>

theorem fallback_none_marks_not_found:
  assumes "map_of r (image_col self) = Some (Value raw)"
    and "rename_enabled self \<longrightarrow> map_of r (newname_col self) \<noteq> None"
    and "find_image_file idx (fs st) (preferred_ext self)
           (lower (path_stem (parse_path (path_name (parse_path raw)))))
         = Inr (Some src, Some True)"
    and "fallback_mode self = ''none''"
  shows "process_row self idx st r =
           Inr (Next (st\<lparr>trace := trace st @ [Log_fallback_found src,
                                               Log_not_found (path_name (parse_path raw))],
                         not_found_rows := not_found_rows st @ [r]\<rparr>))"
proof -
  define original_stem where
    "original_stem = lower (path_stem (parse_path (path_name (parse_path raw))))"
  have "\<exists>output_stem. output_stem_of self r original_stem = Inr output_stem"
    using assms(2) by (auto simp: output_stem_of_def getitem_def)
  then obtain output_stem where o: "output_stem_of self r original_stem = Inr output_stem"
    by blast
  obtain dest where d: "resolve_output_path (fs st) (out_dir self) output_stem
                          (preferred_ext self) = Some dest"
    using resolve_output_path_total [of "fs st" "out_dir self" output_stem "preferred_ext self"]
    by blast
  have a: "ask_conversion self (emit (Log_fallback_found src) st)
             = Inr (emit (Log_fallback_found src) st)"
    using assms(4) by (simp add: ask_conversion_def)
  have "handle_fallback self st r (path_name (parse_path raw)) src dest =
          Inr (Next (mark_not_found r (path_name (parse_path raw))
                       (emit (Log_fallback_found src) st)))"
    using assms(4) a by (simp add: handle_fallback_def)
  then have "process_row self idx st r =
          Inr (Next (mark_not_found r (path_name (parse_path raw))
                       (emit (Log_fallback_found src) st)))"
    using assms(1,3) o d
    by (simp add: process_row_def getitem_def isna_def str_cell_def Let_def
        original_stem_def [symmetric])
  then show ?thesis
    by (simp add: mark_not_found_def emit_def)
qed

theorem fallback_none_marks_not_found_witness:
  "process_row
     \<lparr>df = None, image_col = ''Img'', newname_col = [], vendor_col = [],
      vendor_value = ''All Vendors'', base_edit = ''/b'', out_edit = ''/out'',
      preferred_ext = ''.jpg'', fallback_mode = ''none'',
      preview_toggle = ''Do not show preview'', dialog_results = (\<lambda>n. None),
      codec = (\<lambda>s d. None), xlsx_size = (\<lambda>rs. 0)\<rparr>
     [''sku123'' \<mapsto> [Path True [''b'', ''sku123.png'']]]
     (initial_state [(Path True [''b'', ''sku123.png''], File 3)])
     [(''Img'', Value ''SKU123.jpg'')]
   = Inr (Next
       \<lparr>copied_original = 0, copied_renamed = 0, converted_original = 0,
        converted_renamed = 0, not_found_rows = [[(''Img'', Value ''SKU123.jpg'')]],
        convert_all_mode = False, dialogs_shown = 0,
        fs = [(Path True [''b'', ''sku123.png''], File 3)],
        trace = [Log_fallback_found (Path True [''b'', ''sku123.png'']),
                 Log_not_found ''SKU123.jpg''],
        report = None\<rparr>)"
  using fallback_none_marks_not_found [of "[(''Img'', Value ''SKU123.jpg'')]"
     "\<lparr>df = None, image_col = ''Img'', newname_col = [], vendor_col = [],
      vendor_value = ''All Vendors'', base_edit = ''/b'', out_edit = ''/out'',
      preferred_ext = ''.jpg'', fallback_mode = ''none'',
      preview_toggle = ''Do not show preview'', dialog_results = (\<lambda>n. None),
      codec = (\<lambda>s d. None), xlsx_size = (\<lambda>rs. 0)\<rparr>"
     "''SKU123.jpg''"
     "[''sku123'' \<mapsto> [Path True [''b'', ''sku123.png'']]]"
     "initial_state [(Path True [''b'', ''sku123.png''], File 3)]"
     "Path True [''b'', ''sku123.png'']"]
  by (simp add: eval_defs)

text \<open>
  The end of a run. The report is written exactly when some row went unmatched, and it
  holds the unmatched rows as they are; with no unmatched row nothing at all is emitted.
\<close>

lemma finalize_report:
  "finalize self n st = Inr st' \<Longrightarrow>
     (if not_found_rows st = [] then st' = st else report st' = Some (not_found_rows st))"
  by (auto simp: finalize_def emit_def split: if_splits sum.splits)

lemma finalize_nothing_unmatched:
  "not_found_rows st = [] \<Longrightarrow> finalize self n st = Inr st"
  by (simp add: finalize_def)

text \<open>
  Claim C3. A run that reaches its end is to emit the final counters whether or not rows
  went unmatched. In the code the summary lines of the log and the completion message
  stand inside \<open>if not_found_rows:\<close>; a run in which every row is matched ends
  without either: its trace has no \<open>Log_run_complete\<close> and no
  \<open>Message_completed\<close>.
\<close>

theorem run_all_matched_emits_no_summary:
  "run
     \<lparr>df = Some [[(''Img'', Value ''a.jpg'')]], image_col = ''Img'', newname_col = [],
      vendor_col = [], vendor_value = ''All Vendors'', base_edit = ''/b'', out_edit = ''/out'',
      preferred_ext = ''.jpg'', fallback_mode = ''convert'',
      preview_toggle = ''Do not show preview'', dialog_results = (\<lambda>n. None),
      codec = (\<lambda>s d. None), xlsx_size = (\<lambda>rs. 0)\<rparr>
     [(Path True [''b''], Dir 0), (Path True [''b'', ''a.jpg''], File 3)]
   = Inr (Finished
       \<lparr>copied_original = 1, copied_renamed = 0, converted_original = 0,
        converted_renamed = 0, not_found_rows = [], convert_all_mode = False,
        dialogs_shown = 0,
        fs = [(Path True [''b''], Dir 0), (Path True [''b'', ''a.jpg''], File 3),
              (Path True [''out''], Dir 0), (Path True [''out'', ''process_log.txt''], File 0),
              (Path True [''out'', ''a.jpg''], File 3)],
        trace = [Log_new_run 1 ''.jpg'' False ''convert'',
                 Log_copy_preferred (Path True [''b'', ''a.jpg'']) (Path True [''out'', ''a.jpg''])],
        report = None\<rparr>)"
  by (simp add: eval_defs run_def build_image_index_def rglob_def is_below_def
      path_is_file_def setdefault_append_def mkdir_parents_def ancestors_and_self_def
      select_rows_def finalize_def)

end
